theory Spec2Isabelle
  imports Complex_Main "HOL-Library.Multiset" "HOL-Library.AList"
begin

section \<open>Character-level seq2seq data preparation (morph\_seq2seq/data.py)\<close>

text \<open>
  A shallow embedding of \<^verbatim>\<open>Dataset\<close>, \<^verbatim>\<open>ValidationDataset\<close> and
  \<^verbatim>\<open>InferenceDataset\<close>. An input stream is the list of lines it yields; a Python
  exception is a value of type \<open>error\<close>; the two vocabulary dictionaries live in a
  store of dictionary objects addressed by references, so that the aliasing made by
  \<^verbatim>\<open>share_vocab\<close> is the equality of two references.
\<close>

subsection \<open>Exceptions\<close>

datatype error =
    UnpackTooFew nat nat  \<comment> \<open>ValueError: not enough values to unpack (expected, got)\<close>
  | UnpackTooMany nat     \<comment> \<open>ValueError: too many values to unpack (expected)\<close>
  | MaxEmptySequence      \<comment> \<open>ValueError: max() arg is an empty sequence\<close>
  | ZeroDivision          \<comment> \<open>ZeroDivisionError: integer division or modulo by zero\<close>
  | ListIndex             \<comment> \<open>IndexError: list index out of range\<close>
  | TensorRagged          \<comment> \<open>ValueError of torch.LongTensor on rows of unequal length\<close>
  | TensorDim             \<comment> \<open>IndexError of transpose(0, 1) on a tensor with one axis\<close>

text \<open>The Python class of each exception the module can raise.\<close>

fun exception_class :: "error \<Rightarrow> string" where
  "exception_class (UnpackTooFew e g) = ''ValueError''"
| "exception_class (UnpackTooMany e) = ''ValueError''"
| "exception_class MaxEmptySequence = ''ValueError''"
| "exception_class ZeroDivision = ''ZeroDivisionError''"
| "exception_class ListIndex = ''IndexError''"
| "exception_class TensorRagged = ''ValueError''"
| "exception_class TensorDim = ''IndexError''"

subsection \<open>Strings\<close>

definition TAB :: char where "TAB = CHR 0x09"
definition NL :: char where "NL = CHR 0x0A"
definition SPACE :: char where "SPACE = CHR 0x20"

text \<open>\<^verbatim>\<open>s.rstrip('\n')\<close>: every trailing newline is removed.\<close>

definition rstrip_nl :: "string \<Rightarrow> string" where
  "rstrip_nl s = rev (dropWhile (\<lambda>c. c = NL) (rev s))"

text \<open>\<^verbatim>\<open>s.split(sep)\<close> with a one-character separator: one more field than there are
  separators, empty fields kept.\<close>

fun str_split :: "char \<Rightarrow> string \<Rightarrow> string list" where
  "str_split sep [] = [[]]"
| "str_split sep (c # cs) =
     (if c = sep then [] # str_split sep cs
      else (case str_split sep cs of
              [] \<Rightarrow> [[c]]
            | w # ws \<Rightarrow> (c # w) # ws))"

text \<open>\<^verbatim>\<open>a, b = xs\<close>: unpacking into exactly two targets.\<close>

fun unpack2 :: "'a list \<Rightarrow> error + ('a \<times> 'a)" where
  "unpack2 [a, b] = Inr (a, b)"
| "unpack2 [] = Inl (UnpackTooFew 2 0)"
| "unpack2 [a] = Inl (UnpackTooFew 2 1)"
| "unpack2 (a # b # c # xs) = Inl (UnpackTooMany 2)"

subsection \<open>Vocabularies\<close>

type_synonym token = string

text \<open>A dictionary from tokens to ids, as the list of its items in insertion order (the
  keys of a dictionary are distinct, so its \<^verbatim>\<open>len\<close> is the length of the list).\<close>

type_synonym vocab = "(token \<times> nat) list"

definition CONSTANTS :: vocab where
  "CONSTANTS = [(''PAD'', 0), (''SOS'', 1), (''EOS'', 2), (''UNK'', 3)]"

definition PAD :: nat where "PAD = 0"
definition SOS :: nat where "SOS = 1"
definition EOS :: nat where "EOS = 2"
definition UNK :: nat where "UNK = 3"

text \<open>\<^verbatim>\<open>vocab[c]\<close> on \<^verbatim>\<open>defaultdict(lambda: len(vocab))\<close>: a missing key is inserted
  with the size the dictionary has before the insertion.\<close>

definition vocab_getitem :: "vocab \<Rightarrow> token \<Rightarrow> nat \<times> vocab" where
  "vocab_getitem V c =
     (case map_of V c of
        Some i \<Rightarrow> (i, V)
      | None \<Rightarrow> (length V, V @ [(c, length V)]))"

text \<open>\<^verbatim>\<open>vocab.get(c, d)\<close>: no insertion.\<close>

definition vocab_get :: "vocab \<Rightarrow> token \<Rightarrow> nat \<Rightarrow> nat" where
  "vocab_get V c d = (case map_of V c of Some i \<Rightarrow> i | None \<Rightarrow> d)"

text \<open>\<^verbatim>\<open>[vocab[c] for c in toks]\<close>, the dictionary growing along the way.\<close>

fun vocab_getitems :: "vocab \<Rightarrow> token list \<Rightarrow> nat list \<times> vocab" where
  "vocab_getitems V [] = ([], V)"
| "vocab_getitems V (c # cs) =
     (case vocab_getitem V c of (i, V1) \<Rightarrow>
        (case vocab_getitems V1 cs of (is, V2) \<Rightarrow> (i # is, V2)))"

subsection \<open>The dataset object\<close>

type_synonym ref = nat
type_synonym store = "ref \<Rightarrow> vocab"
type_synonym raw_sample = "token list \<times> token list"
type_synonym sample = "nat list \<times> nat list"

record config =
  share_vocab :: bool
  input_size :: nat
  output_size :: nat

record dataset =
  cfg :: config
  store :: store
  src_vocab :: ref
  tgt_vocab :: ref
  samples :: "sample list"
  raw_samples :: "raw_sample list"
  src_maxlen :: nat
  tgt_maxlen :: nat
  src_seqlen :: "nat list"
  tgt_seqlen :: "nat list"
  tgt_inv_vocab :: "(nat \<rightharpoonup> token) option"

text \<open>The reading loop of \<^verbatim>\<open>load_data_from_stream\<close>: the first line that does not
  unpack into two fields raises, and the loop stops there.\<close>

definition parse_line :: "string \<Rightarrow> error + raw_sample" where
  "parse_line line =
     (case unpack2 (str_split TAB (rstrip_nl line)) of
        Inl e \<Rightarrow> Inl e
      | Inr (src, tgt) \<Rightarrow> Inr (str_split SPACE src, str_split SPACE tgt))"

fun read_raw_samples :: "string list \<Rightarrow> raw_sample list \<Rightarrow> error + raw_sample list" where
  "read_raw_samples [] acc = Inr acc"
| "read_raw_samples (line # rest) acc =
     (case parse_line line of
        Inl e \<Rightarrow> Inl e
      | Inr p \<Rightarrow> read_raw_samples rest (acc @ [p]))"

text \<open>\<^verbatim>\<open>max(...)\<close> of a sequence of lengths.\<close>

fun py_max :: "nat list \<Rightarrow> error + nat" where
  "py_max [] = Inl MaxEmptySequence"
| "py_max (x # xs) = Inr (fold max xs x)"

text \<open>One pass of the encoding loop. A list times a negative number is the empty list
  in Python, as \<open>replicate\<close> of a truncated difference is here. The source list is
  built before the target list, so with one shared dictionary the source tokens of a
  sample are inserted before its target tokens.\<close>

definition encode_sample :: "bool \<Rightarrow> ref \<Rightarrow> ref \<Rightarrow> nat \<Rightarrow> nat \<Rightarrow> raw_sample \<Rightarrow> store
    \<Rightarrow> sample \<times> store" where
  "encode_sample frozen_vocab sr tr smax tmax p h =
     (case p of (src, tgt) \<Rightarrow>
        if frozen_vocab then
          ((map (\<lambda>c. vocab_get (h sr) c UNK) src @ replicate (smax - length src) PAD,
            map (\<lambda>c. vocab_get (h tr) c UNK) tgt @ [EOS] @ replicate (tmax - length tgt) PAD),
           h)
        else
          (case vocab_getitems (h sr) src of (is, V1) \<Rightarrow>
             (case vocab_getitems ((h(sr := V1)) tr) tgt of (js, V2) \<Rightarrow>
                ((is @ replicate (smax - length src) PAD,
                  js @ [EOS] @ replicate (tmax - length tgt) PAD),
                 (h(sr := V1))(tr := V2)))))"

fun encode_samples :: "bool \<Rightarrow> ref \<Rightarrow> ref \<Rightarrow> nat \<Rightarrow> nat \<Rightarrow> raw_sample list \<Rightarrow> store
    \<Rightarrow> sample list \<Rightarrow> sample list \<times> store" where
  "encode_samples frozen_vocab sr tr smax tmax [] h acc = (acc, h)"
| "encode_samples frozen_vocab sr tr smax tmax (p # ps) h acc =
     (case encode_sample frozen_vocab sr tr smax tmax p h of (s, h1) \<Rightarrow>
        encode_samples frozen_vocab sr tr smax tmax ps h1 (acc @ [s]))"

definition load_data_from_stream :: "dataset \<Rightarrow> string list \<Rightarrow> bool \<Rightarrow> error + dataset" where
  "load_data_from_stream self stream frozen_vocab =
     (case read_raw_samples stream [] of
        Inl e \<Rightarrow> Inl e
      | Inr raws \<Rightarrow>
     (case py_max (map (\<lambda>s. length (fst s)) raws) of
        Inl e \<Rightarrow> Inl e
      | Inr smax \<Rightarrow>
     (case py_max (map (\<lambda>s. length (snd s)) raws) of
        Inl e \<Rightarrow> Inl e
      | Inr tmax \<Rightarrow>
     (case encode_samples frozen_vocab (src_vocab self) (tgt_vocab self) smax tmax raws
             (store self) [] of
        (smp, h) \<Rightarrow>
          Inr (self\<lparr>store := h, samples := smp, raw_samples := raws,
                 src_maxlen := smax, tgt_maxlen := tmax + 1,
                 src_seqlen := map (\<lambda>s. length (fst s)) raws,
                 tgt_seqlen := map (\<lambda>s. length (snd s) + 1) raws\<rparr>)))))"

definition update_config :: "dataset \<Rightarrow> dataset" where
  "update_config self =
     self\<lparr>cfg := (cfg self)\<lparr>input_size := length (store self (src_vocab self)),
                             output_size := length (store self (tgt_vocab self))\<rparr>\<rparr>"

text \<open>\<^verbatim>\<open>Dataset.__init__\<close>: the source dictionary is a new object (reference 0); the
  target dictionary is the same object when \<^verbatim>\<open>share_vocab\<close> is set, a second new
  object (reference 1) otherwise. The attributes that \<^verbatim>\<open>load_data_from_stream\<close>
  assigns do not exist before it runs; their initial values in \<open>Dataset_new\<close>, the object as it is before
  \<^verbatim>\<open>load_data_from_stream\<close> is called, are never read.\<close>

definition init_constants :: "ref \<Rightarrow> ref \<Rightarrow> store \<Rightarrow> store" where
  "init_constants sr tr h0 =
     fold (\<lambda>kv h. (case kv of (k, v) \<Rightarrow>
             (let h1 = h(sr := AList.update k v (h sr))
              in h1(tr := AList.update k v (h1 tr)))))
          CONSTANTS h0"

definition Dataset_new :: "config \<Rightarrow> dataset" where
  "Dataset_new c =
     (let sr = 0;
          tr = (if share_vocab c then sr else 1)
      in \<lparr>cfg = c, store = init_constants sr tr (\<lambda>r. []),
          src_vocab = sr, tgt_vocab = tr,
          samples = [], raw_samples = [], src_maxlen = 0, tgt_maxlen = 0,
          src_seqlen = [], tgt_seqlen = [], tgt_inv_vocab = None\<rparr>)"

definition Dataset_init :: "config \<Rightarrow> string list \<Rightarrow> error + dataset" where
  "Dataset_init c stream =
     (case load_data_from_stream (Dataset_new c) stream False of
        Inl e \<Rightarrow> Inl e
      | Inr self \<Rightarrow> Inr (update_config self))"

text \<open>\<^verbatim>\<open>ValidationDataset.__init__\<close>: the configuration and both dictionaries are
  those of the training dataset (the same objects), read with a frozen vocabulary.\<close>

definition ValidationDataset_new :: "dataset \<Rightarrow> dataset" where
  "ValidationDataset_new train_data =
     \<lparr>cfg = cfg train_data, store = store train_data,
      src_vocab = src_vocab train_data, tgt_vocab = tgt_vocab train_data,
      samples = [], raw_samples = [], src_maxlen = 0, tgt_maxlen = 0,
      src_seqlen = [], tgt_seqlen = [], tgt_inv_vocab = None\<rparr>"

definition ValidationDataset_init :: "dataset \<Rightarrow> string list \<Rightarrow> error + dataset" where
  "ValidationDataset_init train_data stream =
     load_data_from_stream (ValidationDataset_new train_data) stream True"

text \<open>\<^verbatim>\<open>src_lookup\<close> and \<^verbatim>\<open>tgt_reverse_lookup\<close>. The inverse dictionary is built
  at the first call, from the target dictionary as it is then (a later item overrides
  an earlier one with the same id), and kept.\<close>

definition src_lookup :: "dataset \<Rightarrow> token \<Rightarrow> bool \<Rightarrow> nat \<times> dataset" where
  "src_lookup self ch frozen =
     (if \<not> frozen then
        (case vocab_getitem (store self (src_vocab self)) ch of
           (i, V) \<Rightarrow> (i, self\<lparr>store := (store self)(src_vocab self := V)\<rparr>))
      else (vocab_get (store self (src_vocab self)) ch UNK, self))"

definition invert_vocab :: "vocab \<Rightarrow> (nat \<rightharpoonup> token)" where
  "invert_vocab V = map_of (rev (map (\<lambda>(ch, i). (i, ch)) V))"

definition tgt_reverse_lookup :: "dataset \<Rightarrow> nat \<Rightarrow> token \<times> dataset" where
  "tgt_reverse_lookup self idx =
     (let inv = (case tgt_inv_vocab self of
                   None \<Rightarrow> invert_vocab (store self (tgt_vocab self))
                 | Some m \<Rightarrow> m)
      in ((case inv idx of None \<Rightarrow> ''<UNK>'' | Some ch \<Rightarrow> ch),
          self\<lparr>tgt_inv_vocab := Some inv\<rparr>))"

subsection \<open>Batches\<close>

text \<open>Python indexing \<^verbatim>\<open>xs[i]\<close> (an index below zero counts from the end), slicing
  \<^verbatim>\<open>xs[a:b]\<close> (both bounds clipped to the list) and \<^verbatim>\<open>range(a, b)\<close>.\<close>

definition py_nth :: "'a list \<Rightarrow> int \<Rightarrow> error + 'a" where
  "py_nth xs i =
     (if 0 \<le> i \<and> i < int (length xs) then Inr (xs ! nat i)
      else if i < 0 \<and> - int (length xs) \<le> i then Inr (xs ! nat (int (length xs) + i))
      else Inl ListIndex)"

definition py_clip :: "nat \<Rightarrow> int \<Rightarrow> nat" where
  "py_clip n i = (if i < 0 then nat (max 0 (int n + i)) else min n (nat i))"

definition py_slice :: "'a list \<Rightarrow> int \<Rightarrow> int \<Rightarrow> 'a list" where
  "py_slice xs a b =
     take (py_clip (length xs) b - py_clip (length xs) a) (drop (py_clip (length xs) a) xs)"

definition py_range :: "int \<Rightarrow> int \<Rightarrow> int list" where
  "py_range a b = [a..b - 1]"

text \<open>A list comprehension whose element expression may raise.\<close>

fun map_err :: "('a \<Rightarrow> error + 'b) \<Rightarrow> 'a list \<Rightarrow> error + 'b list" where
  "map_err f [] = Inr []"
| "map_err f (x # xs) =
     (case f x of
        Inl e \<Rightarrow> Inl e
      | Inr y \<Rightarrow> (case map_err f xs of Inl e \<Rightarrow> Inl e | Inr ys \<Rightarrow> Inr (y # ys)))"

text \<open>The tensors of the numeric library, as far as this module uses them:
  \<^verbatim>\<open>Variable(torch.LongTensor(rows)).transpose(0, 1)\<close> makes a matrix with one row per
  list and then swaps its two axes. The empty list makes a tensor with a single axis,
  which has no second axis to swap; rows of unequal length are refused. The result is
  time-major: \<open>n_rows\<close> is the sequence length, \<open>n_cols\<close> the number of samples,
  and sample \<open>k\<close> is column \<open>k\<close>.\<close>

record matrix =
  n_rows :: nat
  n_cols :: nat
  cells :: "nat list list"

definition LongTensor_transposed :: "nat list list \<Rightarrow> error + matrix" where
  "LongTensor_transposed xs =
     (case xs of
        [] \<Rightarrow> Inl TensorDim
      | r # rs \<Rightarrow>
          if list_all (\<lambda>r'. length r' = length r) rs
          then Inr \<lparr>n_rows = length r, n_cols = length xs,
                    cells = map (\<lambda>j. map (\<lambda>row. row ! j) xs) [0..<length r]\<rparr>
          else Inl TensorRagged)"

definition column :: "matrix \<Rightarrow> nat \<Rightarrow> nat list" where
  "column m k = map (\<lambda>r. r ! k) (cells m)"

record batch =
  b_src :: matrix
  b_tgt :: matrix
  b_src_len :: "nat list"
  b_tgt_len :: "nat list"

text \<open>\<^verbatim>\<open>get_random_batch\<close>. The draw of \<^verbatim>\<open>np.random.choice(range(len(samples)),
  batch_size)\<close> is the parameter \<open>drawn\<close>: any list of \<^verbatim>\<open>batch_size\<close> indices below
  \<^verbatim>\<open>len(samples)\<close>, repetitions allowed. \<^verbatim>\<open>sorted\<close> computes the key of every
  element first and is stable.\<close>

definition get_random_batch :: "dataset \<Rightarrow> int list \<Rightarrow> error + batch" where
  "get_random_batch self drawn =
     (case map_err (py_nth (src_seqlen self)) drawn of
        Inl e \<Rightarrow> Inl e
      | Inr keys \<Rightarrow>
     (let idx = map fst (sort_key (\<lambda>p. - int (snd p)) (zip drawn keys)) in
     (case map_err (py_nth (samples self)) idx of
        Inl e \<Rightarrow> Inl e
      | Inr chosen \<Rightarrow>
     (case LongTensor_transposed (map fst chosen) of
        Inl e \<Rightarrow> Inl e
      | Inr src \<Rightarrow>
     (case LongTensor_transposed (map snd chosen) of
        Inl e \<Rightarrow> Inl e
      | Inr tgt \<Rightarrow>
     (case map_err (py_nth (src_seqlen self)) idx of
        Inl e \<Rightarrow> Inl e
      | Inr src_len \<Rightarrow>
     (case map_err (py_nth (tgt_seqlen self)) idx of
        Inl e \<Rightarrow> Inl e
      | Inr tgt_len \<Rightarrow>
          Inr \<lparr>b_src = src, b_tgt = tgt, b_src_len = src_len, b_tgt_len = tgt_len\<rparr>)))))))"

text \<open>The body of the loop of \<^verbatim>\<open>batched_iter\<close> for batch number \<open>i\<close>, and the
  generator as the list of the batches it yields (or the first exception).\<close>

definition batched_iter_body :: "dataset \<Rightarrow> int \<Rightarrow> int \<Rightarrow> error + batch" where
  "batched_iter_body self batch_size i =
     (let start = i * batch_size;
          stop = min ((i + 1) * batch_size) (int (length (samples self)));
          chunk = py_slice (samples self) start stop
      in
     (case map_err (py_nth (src_seqlen self)) (py_range start stop) of
        Inl e \<Rightarrow> Inl e
      | Inr src_len \<Rightarrow>
     (case map_err (py_nth (tgt_seqlen self)) (py_range start stop) of
        Inl e \<Rightarrow> Inl e
      | Inr tgt_len \<Rightarrow>
     (let sorted_batch =
            sort_key (\<lambda>x. - int (fst (snd (snd x))))
              (zip (map fst chunk) (zip (map snd chunk) (zip src_len tgt_len)))
      in
     (if sorted_batch = [] then Inl (UnpackTooFew 4 0)
      else
     (case LongTensor_transposed (map fst sorted_batch) of
        Inl e \<Rightarrow> Inl e
      | Inr src \<Rightarrow>
     (case LongTensor_transposed (map (\<lambda>x. fst (snd x)) sorted_batch) of
        Inl e \<Rightarrow> Inl e
      | Inr tgt \<Rightarrow>
          Inr \<lparr>b_src = src, b_tgt = tgt,
               b_src_len = map (\<lambda>x. fst (snd (snd x))) sorted_batch,
               b_tgt_len = map (\<lambda>x. snd (snd (snd x))) sorted_batch\<rparr>)))))))"

definition batched_iter :: "dataset \<Rightarrow> int \<Rightarrow> error + batch list" where
  "batched_iter self batch_size =
     (if batch_size = 0 then Inl ZeroDivision
      else
        (let n = int (length (samples self));
             batch_count = n div batch_size;
             batch_count' = (if batch_count * batch_size < n then batch_count + 1
                             else batch_count)
         in map_err (batched_iter_body self batch_size) (py_range 0 batch_count')))"

subsection \<open>The inference dataset\<close>

record inference_dataset =
  inf_src_vocab :: "(string \<times> string) list"
  inf_samples :: "string list"
  inf_raw_samples :: "string list"
  len_mapping :: "nat list"

text \<open>\<^verbatim>\<open>load_src_vocab\<close>, on the lines of the vocabulary file.\<close>

fun load_src_vocab :: "string list \<Rightarrow> (string \<times> string) list
    \<Rightarrow> error + (string \<times> string) list" where
  "load_src_vocab [] V = Inr V"
| "load_src_vocab (l # ls) V =
     (case unpack2 (str_split TAB (rstrip_nl l)) of
        Inl e \<Rightarrow> Inl e
      | Inr (src, tgt) \<Rightarrow> load_src_vocab ls (AList.update src tgt V))"

text \<open>\<^verbatim>\<open>InferenceDataset.load_data_from_stream\<close>: \<^verbatim>\<open>zip(*pairs)\<close> yields the tuple
  of the indices and the tuple of the lines, and nothing at all when there is no pair,
  so that the assignment to two targets raises on an empty stream.\<close>

definition inference_load_data_from_stream :: "string list
    \<Rightarrow> error + (string list \<times> nat list \<times> string list)" where
  "inference_load_data_from_stream stream =
     (let raws = map rstrip_nl stream;
          sorted_pairs = sort_key (\<lambda>x. - int (length (snd x))) (enumerate 0 raws)
      in if sorted_pairs = [] then Inl (UnpackTooFew 2 0)
         else Inr (raws, map fst sorted_pairs, map snd sorted_pairs))"

definition InferenceDataset_init :: "string list \<Rightarrow> string list \<Rightarrow> error + inference_dataset" where
  "InferenceDataset_init vocab_file stream =
     (case load_src_vocab vocab_file [] of
        Inl e \<Rightarrow> Inl e
      | Inr V \<Rightarrow>
     (case inference_load_data_from_stream stream of
        Inl e \<Rightarrow> Inl e
      | Inr (raws, m, smp) \<Rightarrow>
          Inr \<lparr>inf_src_vocab = V, inf_samples = smp, inf_raw_samples = raws,
               len_mapping = m\<rparr>))"

subsection \<open>Notions used in the statements\<close>

text \<open>A dictionary whose keys are distinct and whose ids are the positions of its items:
  what \<^verbatim>\<open>defaultdict(lambda: len(vocab))\<close> maintains from the four reserved items on.\<close>

definition vocab_wf :: "vocab \<Rightarrow> bool" where
  "vocab_wf V \<longleftrightarrow> distinct (map fst V) \<and> map snd V = [0..<length V]"

text \<open>The tokens that the encoding loop looks up through the dictionary \<open>r\<close>, in the
  order of the lookups, when \<open>sr\<close> is the source and \<open>tr\<close> the target dictionary.\<close>

definition tokens_through :: "ref \<Rightarrow> ref \<Rightarrow> ref \<Rightarrow> raw_sample list \<Rightarrow> token list" where
  "tokens_through sr tr r ps =
     concat (map (\<lambda>p. (if r = sr then fst p else []) @ (if r = tr then snd p else [])) ps)"

text \<open>The distinct tokens of a sequence in the order of their first occurrence
  (\<open>remdups\<close> keeps the last occurrence of every element).\<close>

definition first_encounter :: "token list \<Rightarrow> token list" where
  "first_encounter toks = rev (remdups (rev toks))"

text \<open>Sample \<open>i\<close> of a dataset with its two true lengths, and what a batch holds at
  position \<open>k\<close> of its sample axis: column \<open>k\<close> of the source matrix, column \<open>k\<close>
  of the target matrix and the two lengths at \<open>k\<close>. The samples of a batch are its
  columns.\<close>

definition sample_entry :: "dataset \<Rightarrow> nat \<Rightarrow> nat list \<times> nat list \<times> nat \<times> nat" where
  "sample_entry d i = (fst (samples d ! i), snd (samples d ! i), src_seqlen d ! i, tgt_seqlen d ! i)"

definition batch_entry :: "batch \<Rightarrow> nat \<Rightarrow> nat list \<times> nat list \<times> nat \<times> nat" where
  "batch_entry b k = (column (b_src b) k, column (b_tgt b) k, b_src_len b ! k, b_tgt_len b ! k)"

definition batch_samples :: "batch \<Rightarrow> sample list" where
  "batch_samples b = map (\<lambda>k. (column (b_src b) k, column (b_tgt b) k)) [0..<n_cols (b_src b)]"

text \<open>A batch is aligned with a dataset when its two matrices and its two length
  sequences have one entry per batch position and what it holds at every position is
  one sample of the dataset, with that sample's lengths.\<close>

definition batch_aligned :: "dataset \<Rightarrow> batch \<Rightarrow> bool" where
  "batch_aligned d b \<longleftrightarrow>
     n_cols (b_tgt b) = n_cols (b_src b) \<and> length (b_src_len b) = n_cols (b_src b)
     \<and> length (b_tgt_len b) = n_cols (b_src b)
     \<and> (\<forall>k<n_cols (b_src b). \<exists>i<length (samples d). batch_entry b k = sample_entry d i)"

section \<open>Properties\<close>

subsection \<open>Reading lines\<close>

lemma str_split_nonempty: "str_split sep s \<noteq> []"
  by (induction s) (auto split: list.splits)

lemma length_str_split: "length (str_split sep s) = Suc (count_list s sep)"
  by (induction s) (auto split: list.splits simp: str_split_nonempty)

lemma count_list_rstrip_nl: "c \<noteq> NL \<Longrightarrow> count_list (rstrip_nl s) c = count_list s c"
proof -
  assume c: "c \<noteq> NL"
  have "count_list (dropWhile (\<lambda>x. x = NL) xs) c = count_list xs c" for xs
    using c by (induction xs) auto
  from this [of "rev s"] show ?thesis
    by (simp add: rstrip_nl_def)
qed

lemma TAB_neq_NL: "TAB \<noteq> NL"
  by (simp add: TAB_def NL_def)

lemma unpack2_cases:
  "unpack2 xs =
     (if length xs = 2 then Inr (xs ! 0, xs ! 1)
      else if length xs < 2 then Inl (UnpackTooFew 2 (length xs))
      else Inl (UnpackTooMany 2))"
  by (cases xs rule: unpack2.cases) auto

lemma split_line_cases:
  "unpack2 (str_split TAB (rstrip_nl line)) =
     (if count_list line TAB = 1
      then Inr (str_split TAB (rstrip_nl line) ! 0, str_split TAB (rstrip_nl line) ! 1)
      else if count_list line TAB = 0 then Inl (UnpackTooFew 2 1)
      else Inl (UnpackTooMany 2))"
  by (simp add: unpack2_cases length_str_split count_list_rstrip_nl TAB_neq_NL)

lemma parse_line_cases:
  "parse_line line =
     (if count_list line TAB = 1
      then Inr (str_split SPACE (str_split TAB (rstrip_nl line) ! 0),
                str_split SPACE (str_split TAB (rstrip_nl line) ! 1))
      else if count_list line TAB = 0 then Inl (UnpackTooFew 2 1)
      else Inl (UnpackTooMany 2))"
  by (simp add: parse_line_def split_line_cases)

lemma read_raw_samples_ok:
  "\<forall>l\<in>set ls. count_list l TAB = 1 \<Longrightarrow>
   read_raw_samples ls acc = Inr (acc @ map (\<lambda>l. projr (parse_line l)) ls)"
  by (induction ls arbitrary: acc) (auto simp: parse_line_cases)

lemma read_raw_samples_bad:
  "\<forall>l\<in>set pre. count_list l TAB = 1 \<Longrightarrow> count_list l TAB \<noteq> 1 \<Longrightarrow>
   read_raw_samples (pre @ l # post) acc = Inl (projl (parse_line l))"
  by (induction pre arbitrary: acc) (auto simp: parse_line_cases)

lemma first_bad_line:
  assumes "\<exists>l\<in>set ls. \<not> P l"
  shows "\<exists>pre l post. ls = pre @ l # post \<and> (\<forall>x\<in>set pre. P x) \<and> \<not> P l"
proof -
  from split_list_first_prop [of ls "\<lambda>l. \<not> P l", OF assms]
  obtain ys x zs where "ls = ys @ x # zs" "\<not> P x" "\<forall>y\<in>set ys. \<not> \<not> P y"
    by blast
  then show ?thesis by auto
qed

lemma read_raw_samples_Inr_iff:
  "(\<exists>r. read_raw_samples ls acc = Inr r) \<longleftrightarrow> (\<forall>l\<in>set ls. count_list l TAB = 1)"
proof
  assume "\<exists>r. read_raw_samples ls acc = Inr r"
  then obtain r where r: "read_raw_samples ls acc = Inr r" ..
  show "\<forall>l\<in>set ls. count_list l TAB = 1"
  proof (rule ccontr)
    assume "\<not> ?thesis"
    then have "\<exists>l\<in>set ls. \<not> count_list l TAB = 1" by blast
    from first_bad_line [OF this] obtain pre l post where
      "ls = pre @ l # post" "\<forall>x\<in>set pre. count_list x TAB = 1" "count_list l TAB \<noteq> 1"
      by blast
    with read_raw_samples_bad [of pre l post acc] r show False by simp
  qed
next
  assume "\<forall>l\<in>set ls. count_list l TAB = 1"
  then show "\<exists>r. read_raw_samples ls acc = Inr r"
    by (simp add: read_raw_samples_ok)
qed

lemma py_max_eq: "py_max xs = (if xs = [] then Inl MaxEmptySequence else Inr (Max (set xs)))"
proof (cases xs)
  case Nil then show ?thesis by simp
next
  case (Cons a list)
  have "Max (set (a # list)) = fold max list a" by (rule Max.set_eq_fold)
  with Cons show ?thesis by simp
qed


lemma load_Inr_iff:
  "(\<exists>d. load_data_from_stream self stream frozen = Inr d) \<longleftrightarrow>
     stream \<noteq> [] \<and> (\<forall>l\<in>set stream. count_list l TAB = 1)"
proof (cases "\<forall>l\<in>set stream. count_list l TAB = 1")
  case True
  then have r: "read_raw_samples stream [] = Inr (map (\<lambda>l. projr (parse_line l)) stream)"
    by (simp add: read_raw_samples_ok)
  from True show ?thesis
    by (cases "stream = []")
       (simp_all add: load_data_from_stream_def r py_max_eq split: prod.splits)
next
  case False
  with read_raw_samples_Inr_iff [of stream "[]"]
  have "\<not> (\<exists>r. read_raw_samples stream [] = Inr r)" by simp
  then obtain e where "read_raw_samples stream [] = Inl e"
    by (cases "read_raw_samples stream []") auto
  with False show ?thesis
    by (auto simp: load_data_from_stream_def)
qed

lemma load_src_vocab_Inr_iff:
  "(\<exists>V'. load_src_vocab vf V = Inr V') \<longleftrightarrow> (\<forall>l\<in>set vf. count_list l TAB = 1)"
  by (induction vf arbitrary: V) (auto simp: split_line_cases)

lemma load_empty: "load_data_from_stream self [] frozen = Inl MaxEmptySequence"
  by (simp add: load_data_from_stream_def)

lemma load_bad_line:
  assumes "\<forall>l\<in>set pre. count_list l TAB = 1" "count_list l TAB \<noteq> 1"
  shows "load_data_from_stream self (pre @ l # post) frozen =
           Inl (if count_list l TAB = 0 then UnpackTooFew 2 1 else UnpackTooMany 2)"
  using assms
  by (simp add: load_data_from_stream_def read_raw_samples_bad parse_line_cases)

lemma load_fails_class:
  assumes "l \<in> set stream" "count_list l TAB \<noteq> 1"
  shows "\<exists>e. load_data_from_stream self stream frozen = Inl e \<and> e \<in> {UnpackTooFew 2 1, UnpackTooMany 2}"
proof -
  from assms have "\<exists>l\<in>set stream. \<not> count_list l TAB = 1" by blast
  from first_bad_line [OF this] obtain pre x post where
    s: "stream = pre @ x # post" and p: "\<forall>y\<in>set pre. count_list y TAB = 1"
    and x: "count_list x TAB \<noteq> 1"
    by blast
  show ?thesis
    unfolding s using load_bad_line [OF p x] by simp
qed

subsection \<open>The empty stream\<close>

text \<open>
  Claim C2, as amended. For the empty input stream, loading a dataset fails: the
  exception is the built-in ValueError that \<^verbatim>\<open>max\<close> raises on an empty sequence (the
  module defines no exception class of its own), it is raised by
  \<^verbatim>\<open>load_data_from_stream\<close> whatever the object and the vocabulary mode, and the
  constructors of the training and the validation dataset return no dataset.
\<close>

theorem empty_stream_fails:
  "load_data_from_stream self [] frozen = Inl MaxEmptySequence
   \<and> Dataset_init c [] = Inl MaxEmptySequence
   \<and> ValidationDataset_init train_data [] = Inl MaxEmptySequence
   \<and> exception_class MaxEmptySequence = ''ValueError''"
  by (simp add: load_empty Dataset_init_def ValidationDataset_init_def)

theorem empty_stream_fails_witness:
  "Dataset_init \<lparr>share_vocab = True, input_size = 0, output_size = 0\<rparr> [] = Inl MaxEmptySequence"
  using empty_stream_fails [of undefined undefined
      "\<lparr>share_vocab = True, input_size = 0, output_size = 0\<rparr>" undefined]
  by simp

text \<open>The claim as it is written fails: the exception of the empty stream is not an
  \<^verbatim>\<open>EmptyDatasetError\<close>, it is the ValueError of \<^verbatim>\<open>max\<close>.\<close>

theorem empty_stream_counterexample:
  "\<not> (\<exists>e. Dataset_init \<lparr>share_vocab = False, input_size = 0, output_size = 0\<rparr> [] = Inl e
          \<and> exception_class e = ''EmptyDatasetError'')"
  by (simp add: load_empty Dataset_init_def)

subsection \<open>A line without a tab\<close>

text \<open>
  Claim C3, as amended. For every input stream that contains a line with no tab,
  \<^verbatim>\<open>load_data_from_stream\<close> fails in the training and in the validation mode, and so
  do both constructors: no dataset is returned. The exception is the built-in
  ValueError of the assignment to two targets (the module defines no exception class of
  its own), raised in the reading loop at the first line that has not exactly one tab;
  when every line before the line without a tab has exactly one tab, it is raised at
  that line, as "not enough values to unpack (expected 2, got 1)".
\<close>

theorem no_tab_line_aborts_load:
  assumes "l \<in> set stream" and "count_list l TAB = 0"
  shows "(\<exists>e. load_data_from_stream self stream frozen = Inl e
              \<and> e \<in> {UnpackTooFew 2 1, UnpackTooMany 2} \<and> exception_class e = ''ValueError'')
       \<and> (\<exists>e. Dataset_init c stream = Inl e \<and> exception_class e = ''ValueError'')
       \<and> (\<exists>e. ValidationDataset_init train_data stream = Inl e
              \<and> exception_class e = ''ValueError'')
       \<and> (\<forall>pre post. stream = pre @ l # post \<and> list_all (\<lambda>x. count_list x TAB = 1) pre
              \<longrightarrow> load_data_from_stream self stream frozen = Inl (UnpackTooFew 2 1))"
proof -
  from assms have ne: "count_list l TAB \<noteq> 1" by simp
  have a: "\<exists>e. load_data_from_stream self' stream frozen' = Inl e
              \<and> e \<in> {UnpackTooFew 2 1, UnpackTooMany 2} \<and> exception_class e = ''ValueError''"
    for self' frozen'
    using load_fails_class [OF assms(1) ne, of self' frozen'] by auto
  have b: "\<exists>e. Dataset_init c stream = Inl e \<and> exception_class e = ''ValueError''"
    using a [of "Dataset_new c" False] by (auto simp: Dataset_init_def)
  have c: "\<exists>e. ValidationDataset_init train_data stream = Inl e \<and> exception_class e = ''ValueError''"
    unfolding ValidationDataset_init_def using a by blast
  have d: "\<forall>pre post. stream = pre @ l # post \<and> list_all (\<lambda>x. count_list x TAB = 1) pre
              \<longrightarrow> load_data_from_stream self stream frozen = Inl (UnpackTooFew 2 1)"
    using load_bad_line [of _ l self _ frozen] assms(2) by (auto simp: list_all_iff)
  from a b c d show ?thesis by blast
qed

theorem no_tab_line_aborts_load_witness: "''ab'' \<in> set [''a'' @ [TAB] @ ''b'', ''ab''] \<and> count_list ''ab'' TAB = 0 \<and>
   load_data_from_stream (Dataset_new \<lparr>share_vocab = False, input_size = 0, output_size = 0\<rparr>) [''a'' @ [TAB] @ ''b'', ''ab''] False = Inl (UnpackTooFew 2 1)"
proof -
  have 1: "''ab'' \<in> set [''a'' @ [TAB] @ ''b'', ''ab'']" by simp
  have 2: "count_list ''ab'' TAB = 0" by (simp add: TAB_def)
  have 3: "list_all (\<lambda>x. count_list x TAB = 1) [''a'' @ [TAB] @ ''b'']" by (simp add: TAB_def)
  from no_tab_line_aborts_load [OF 1 2, of
      "Dataset_new \<lparr>share_vocab = False, input_size = 0, output_size = 0\<rparr>" False
      "\<lparr>share_vocab = False, input_size = 0, output_size = 0\<rparr>"
      "Dataset_new \<lparr>share_vocab = False, input_size = 0, output_size = 0\<rparr>"]
  have "\<forall>pre post. [''a'' @ [TAB] @ ''b'', ''ab''] = pre @ ''ab'' # post
            \<and> list_all (\<lambda>x. count_list x TAB = 1) pre
          \<longrightarrow> load_data_from_stream (Dataset_new \<lparr>share_vocab = False, input_size = 0, output_size = 0\<rparr>) [''a'' @ [TAB] @ ''b'', ''ab''] False
                = Inl (UnpackTooFew 2 1)"
    by blast
  from this [rule_format, of "[''a'' @ [TAB] @ ''b'']" "[]"] 3
  have "load_data_from_stream (Dataset_new \<lparr>share_vocab = False, input_size = 0, output_size = 0\<rparr>) [''a'' @ [TAB] @ ''b'', ''ab''] False = Inl (UnpackTooFew 2 1)"
    by simp
  with 1 2 show ?thesis by simp
qed

text \<open>The claim as it is written fails: the exception is not a \<^verbatim>\<open>FormatError\<close>.\<close>

theorem no_tab_line_counterexample:
  "\<not> (\<exists>e. Dataset_init \<lparr>share_vocab = False, input_size = 0, output_size = 0\<rparr> [''ab''] = Inl e
          \<and> exception_class e = ''FormatError'')"
  by (simp add: Dataset_init_def load_data_from_stream_def parse_line_def rstrip_nl_def
      TAB_def NL_def)

subsection \<open>Exactly one tab\<close>

text \<open>
  Claim C10. A line of a training or validation stream parses if and only if it
  contains exactly one tab: with no tab the assignment to two targets has too few
  values, with two or more it has too many, and either way the exception ends the
  load. \<^verbatim>\<open>load_data_from_stream\<close> returns a dataset if and only if the stream is not
  empty and every line has exactly one tab; \<^verbatim>\<open>load_src_vocab\<close> returns if and only
  if every line of the vocabulary file has exactly one tab, and an inference dataset is
  only constructed from such a file.
\<close>

theorem exactly_one_tab_required:
  "((\<exists>p. parse_line line = Inr p) \<longleftrightarrow> count_list line TAB = 1)
   \<and> (2 \<le> count_list line TAB \<longrightarrow> parse_line line = Inl (UnpackTooMany 2))
   \<and> (count_list line TAB = 0 \<longrightarrow> parse_line line = Inl (UnpackTooFew 2 1))
   \<and> ((\<exists>d. load_data_from_stream self stream frozen = Inr d) \<longleftrightarrow>
        stream \<noteq> [] \<and> (\<forall>l\<in>set stream. count_list l TAB = 1))
   \<and> ((\<exists>l\<in>set stream. 2 \<le> count_list l TAB) \<longrightarrow>
        (\<exists>e. load_data_from_stream self stream frozen = Inl e
            \<and> exception_class e = ''ValueError''))
   \<and> ((\<exists>V'. load_src_vocab vf V = Inr V') \<longleftrightarrow> (\<forall>l\<in>set vf. count_list l TAB = 1))
   \<and> ((\<exists>d. InferenceDataset_init vf istream = Inr d) \<longrightarrow>
        (\<forall>l\<in>set vf. count_list l TAB = 1))"
proof -
  have 1: "(\<exists>p. parse_line line = Inr p) \<longleftrightarrow> count_list line TAB = 1"
    by (simp add: parse_line_cases)
  have 2: "2 \<le> count_list line TAB \<longrightarrow> parse_line line = Inl (UnpackTooMany 2)"
    by (simp add: parse_line_cases)
  have 3: "count_list line TAB = 0 \<longrightarrow> parse_line line = Inl (UnpackTooFew 2 1)"
    by (simp add: parse_line_cases)
  have 5: "(\<exists>l\<in>set stream. 2 \<le> count_list l TAB) \<longrightarrow>
        (\<exists>e. load_data_from_stream self stream frozen = Inl e
            \<and> exception_class e = ''ValueError'')"
  proof
    assume "\<exists>l\<in>set stream. 2 \<le> count_list l TAB"
    then obtain l where "l \<in> set stream" "count_list l TAB \<noteq> 1" by force
    from load_fails_class [OF this, of self frozen]
    show "\<exists>e. load_data_from_stream self stream frozen = Inl e
            \<and> exception_class e = ''ValueError''"
      by auto
  qed
  have 7: "(\<exists>d. InferenceDataset_init vf istream = Inr d) \<longrightarrow>
        (\<forall>l\<in>set vf. count_list l TAB = 1)"
    using load_src_vocab_Inr_iff [of vf "[]"]
    by (cases "load_src_vocab vf []") (auto simp: InferenceDataset_init_def)
  from 1 2 3 5 7 load_Inr_iff [of self stream frozen] load_src_vocab_Inr_iff [of vf V]
  show ?thesis by blast
qed

theorem exactly_one_tab_required_witness:
  "count_list (''a'' @ [TAB, TAB] @ ''b'') TAB = 2
   \<and> parse_line (''a'' @ [TAB, TAB] @ ''b'') = Inl (UnpackTooMany 2)
   \<and> (\<exists>e. load_data_from_stream (Dataset_new \<lparr>share_vocab = False, input_size = 0, output_size = 0\<rparr>)
            [''a'' @ [TAB] @ ''b'', ''a'' @ [TAB, TAB] @ ''b''] False = Inl e
          \<and> exception_class e = ''ValueError'')
   \<and> (\<exists>V'. load_src_vocab [''a'' @ [TAB] @ ''b''] [] = Inr V')"
proof -
  have 1: "count_list (''a'' @ [TAB, TAB] @ ''b'') TAB = 2" by (simp add: TAB_def)
  have 2: "\<exists>l\<in>set [''a'' @ [TAB] @ ''b'', ''a'' @ [TAB, TAB] @ ''b'']. 2 \<le> count_list l TAB"
    by (simp add: TAB_def)
  have 3: "\<forall>l\<in>set [''a'' @ [TAB] @ ''b'']. count_list l TAB = 1" by (simp add: TAB_def)
  from 1 2 3 exactly_one_tab_required [of "''a'' @ [TAB, TAB] @ ''b''"
      "Dataset_new \<lparr>share_vocab = False, input_size = 0, output_size = 0\<rparr>"
      "[''a'' @ [TAB] @ ''b'', ''a'' @ [TAB, TAB] @ ''b'']" False "[''a'' @ [TAB] @ ''b'']" "[]"]
  show ?thesis by simp
qed

subsection \<open>The inference dataset\<close>

lemma sorted_desc_map:
  "sorted (map (\<lambda>x. - int (g x)) xs) \<Longrightarrow> sorted_wrt (\<lambda>a b. b \<le> a) (map g xs)"
  by (induction xs) auto




subsection \<open>Lengths of the encoded rows\<close>

lemma length_vocab_getitems: "vocab_getitems V cs = (is, V') \<Longrightarrow> length is = length cs"
  by (induction cs arbitrary: V "is" V') (auto split: prod.splits)

lemma encode_sample_lengths:
  "length (fst (fst (encode_sample f sr tr smax tmax p h))) = length (fst p) + (smax - length (fst p))
   \<and> length (snd (fst (encode_sample f sr tr smax tmax p h))) = length (snd p) + 1 + (tmax - length (snd p))"
  by (cases p) (auto simp: encode_sample_def split: prod.splits dest: length_vocab_getitems)

lemma encode_samples_lengths:
  "map (\<lambda>s. (length (fst s), length (snd s))) (fst (encode_samples f sr tr smax tmax ps h acc)) =
     map (\<lambda>s. (length (fst s), length (snd s))) acc @
     map (\<lambda>p. (length (fst p) + (smax - length (fst p)),
               length (snd p) + 1 + (tmax - length (snd p)))) ps"
proof (induction ps arbitrary: h acc)
  case Nil
  show ?case by simp
next
  case (Cons p ps)
  obtain s h1 where e: "encode_sample f sr tr smax tmax p h = (s, h1)"
    by (cases "encode_sample f sr tr smax tmax p h")
  from encode_sample_lengths [of f sr tr smax tmax p h] e
  have "length (fst s) = length (fst p) + (smax - length (fst p))"
    and "length (snd s) = length (snd p) + 1 + (tmax - length (snd p))"
    by simp_all
  then show ?case
    by (simp add: e Cons.IH)
qed

lemma load_Inr_fields:
  assumes "load_data_from_stream self stream frozen = Inr d"
  shows "stream \<noteq> []"
    and "raw_samples d = map (\<lambda>l. projr (parse_line l)) stream"
    and "src_maxlen d = Max (set (map (\<lambda>p. length (fst p)) (raw_samples d)))"
    and "tgt_maxlen d = Max (set (map (\<lambda>p. length (snd p)) (raw_samples d))) + 1"
    and "src_seqlen d = map (\<lambda>p. length (fst p)) (raw_samples d)"
    and "tgt_seqlen d = map (\<lambda>p. length (snd p) + 1) (raw_samples d)"
    and "samples d = fst (encode_samples frozen (src_vocab self) (tgt_vocab self)
            (src_maxlen d) (tgt_maxlen d - 1) (raw_samples d) (store self) [])"
    and "store d = snd (encode_samples frozen (src_vocab self) (tgt_vocab self)
            (src_maxlen d) (tgt_maxlen d - 1) (raw_samples d) (store self) [])"
    and "src_vocab d = src_vocab self" and "tgt_vocab d = tgt_vocab self"
    and "cfg d = cfg self" and "tgt_inv_vocab d = tgt_inv_vocab self"
proof -
  from assms load_Inr_iff [of self stream frozen]
  have ne: "stream \<noteq> []" and ok: "\<forall>l\<in>set stream. count_list l TAB = 1" by auto
  define raws where "raws = map (\<lambda>l. projr (parse_line l)) stream"
  have r: "read_raw_samples stream [] = Inr raws"
    using ok by (simp add: read_raw_samples_ok raws_def)
  from ne have rne: "raws \<noteq> []" by (simp add: raws_def)
  define smax where "smax = Max (set (map (\<lambda>p. length (fst p)) raws))"
  define tmax where "tmax = Max (set (map (\<lambda>p. length (snd p)) raws))"
  have d: "d = self\<lparr>store := snd (encode_samples frozen (src_vocab self) (tgt_vocab self) smax tmax raws (store self) []),
              samples := fst (encode_samples frozen (src_vocab self) (tgt_vocab self) smax tmax raws (store self) []),
              raw_samples := raws, src_maxlen := smax, tgt_maxlen := tmax + 1,
              src_seqlen := map (\<lambda>s. length (fst s)) raws,
              tgt_seqlen := map (\<lambda>s. length (snd s) + 1) raws\<rparr>"
    using assms rne
    by (simp add: load_data_from_stream_def r py_max_eq smax_def tmax_def split: prod.splits)
  show "stream \<noteq> []" by (rule ne)
  show "raw_samples d = map (\<lambda>l. projr (parse_line l)) stream" by (simp add: d raws_def)
  show "src_maxlen d = Max (set (map (\<lambda>p. length (fst p)) (raw_samples d)))" by (simp add: d smax_def)
  show "tgt_maxlen d = Max (set (map (\<lambda>p. length (snd p)) (raw_samples d))) + 1" by (simp add: d tmax_def)
  show "src_seqlen d = map (\<lambda>p. length (fst p)) (raw_samples d)" by (simp add: d)
  show "tgt_seqlen d = map (\<lambda>p. length (snd p) + 1) (raw_samples d)" by (simp add: d)
  show "samples d = fst (encode_samples frozen (src_vocab self) (tgt_vocab self)
            (src_maxlen d) (tgt_maxlen d - 1) (raw_samples d) (store self) [])" by (simp add: d)
  show "store d = snd (encode_samples frozen (src_vocab self) (tgt_vocab self)
            (src_maxlen d) (tgt_maxlen d - 1) (raw_samples d) (store self) [])" by (simp add: d)
  show "src_vocab d = src_vocab self" "tgt_vocab d = tgt_vocab self" "cfg d = cfg self"
    "tgt_inv_vocab d = tgt_inv_vocab self" by (simp_all add: d)
qed

lemma load_samples_lengths:
  assumes "load_data_from_stream self stream frozen = Inr d"
  shows "map (\<lambda>s. (length (fst s), length (snd s))) (samples d) =
           map (\<lambda>p. (src_maxlen d, tgt_maxlen d)) (raw_samples d)"
proof -
  note f = load_Inr_fields [OF assms]
  have "length (fst p) + (src_maxlen d - length (fst p)) = src_maxlen d
      \<and> length (snd p) + 1 + (tgt_maxlen d - 1 - length (snd p)) = tgt_maxlen d"
    if "p \<in> set (raw_samples d)" for p
  proof -
    from that have "length (fst p) \<le> src_maxlen d"
      unfolding f(3) by (intro Max_ge) auto
    moreover from that have "length (snd p) \<le> Max (set (map (\<lambda>p. length (snd p)) (raw_samples d)))"
      by (intro Max_ge) auto
    ultimately show ?thesis using f(4) by simp
  qed
  then show ?thesis
    unfolding f(7) encode_samples_lengths by simp
qed

text \<open>
  Claim C1. When \<^verbatim>\<open>load_data_from_stream\<close> completes (in the growing mode of a
  training dataset as in the frozen mode), the stream was not empty, the raw samples are
  the parsed lines, \<open>src_maxlen\<close> is the largest source token count, the final
  \<open>tgt_maxlen\<close> is the largest target token count plus one, and every encoded source
  row has length \<open>src_maxlen\<close> and every encoded target row has length \<open>tgt_maxlen\<close>.
  The rows are padded with the target maximum before the increment, after one EOS.
\<close>

theorem encoded_rows_have_max_length:
  assumes "load_data_from_stream self stream frozen = Inr d"
  shows "stream \<noteq> []
     \<and> raw_samples d = map (\<lambda>l. projr (parse_line l)) stream
     \<and> src_maxlen d = Max (set (map (\<lambda>p. length (fst p)) (raw_samples d)))
     \<and> tgt_maxlen d = Max (set (map (\<lambda>p. length (snd p)) (raw_samples d))) + 1
     \<and> length (samples d) = length stream
     \<and> list_all (\<lambda>s. length (fst s) = src_maxlen d \<and> length (snd s) = tgt_maxlen d) (samples d)"
proof -
  note f = load_Inr_fields [OF assms]
  note l = load_samples_lengths [OF assms]
  from l have "length (map (\<lambda>s. (length (fst s), length (snd s))) (samples d)) =
           length (map (\<lambda>p. (src_maxlen d, tgt_maxlen d)) (raw_samples d))" by simp
  then have len: "length (samples d) = length stream" by (simp add: f(2))
  have "length (fst s) = src_maxlen d \<and> length (snd s) = tgt_maxlen d" if "s \<in> set (samples d)" for s
  proof -
    from that have "(length (fst s), length (snd s)) \<in> set (map (\<lambda>s. (length (fst s), length (snd s))) (samples d))"
      by (simp add: image_iff) blast
    then show ?thesis unfolding l by auto
  qed
  then have "list_all (\<lambda>s. length (fst s) = src_maxlen d \<and> length (snd s) = tgt_maxlen d) (samples d)"
    by (simp add: list_all_iff)
  with f(1-4) len show ?thesis by simp
qed


theorem encoded_rows_have_max_length_witness:
  "\<exists>d. load_data_from_stream (Dataset_new \<lparr>share_vocab = False, input_size = 0, output_size = 0\<rparr>)
         [''a b c'' @ [TAB] @ ''x y'' @ [NL], ''a b'' @ [TAB] @ ''x'' @ [NL]] False = Inr d
     \<and> src_maxlen d = 3 \<and> tgt_maxlen d = 3 \<and> length (samples d) = 2
     \<and> list_all (\<lambda>s. length (fst s) = 3 \<and> length (snd s) = 3) (samples d)"
proof -
  define stream where "stream = [''a b c'' @ [TAB] @ ''x y'' @ [NL], ''a b'' @ [TAB] @ ''x'' @ [NL]]"
  define self where "self = Dataset_new \<lparr>share_vocab = False, input_size = 0, output_size = 0\<rparr>"
  have "stream \<noteq> [] \<and> (\<forall>l\<in>set stream. count_list l TAB = 1)"
    by (simp add: stream_def TAB_def NL_def)
  with load_Inr_iff [of self stream False]
  obtain d where d: "load_data_from_stream self stream False = Inr d" by blast
  have p: "map (\<lambda>l. projr (parse_line l)) stream =
      [([''a'', ''b'', ''c''], [''x'', ''y'']), ([''a'', ''b''], [''x''])]"
    by (simp add: stream_def parse_line_def rstrip_nl_def TAB_def NL_def SPACE_def)
  note t = encoded_rows_have_max_length [OF d]
  note t2 = t [THEN conjunct2]
  note t3 = t2 [THEN conjunct2]
  note t4 = t3 [THEN conjunct2]
  note t5 = t4 [THEN conjunct2]
  have r: "raw_samples d = [([''a'', ''b'', ''c''], [''x'', ''y'']), ([''a'', ''b''], [''x''])]"
    using t2 [THEN conjunct1] unfolding p .
  have sm: "src_maxlen d = 3"
    using t3 [THEN conjunct1] unfolding r by simp
  have tm: "tgt_maxlen d = 3"
    using t4 [THEN conjunct1] unfolding r by simp
  have "src_maxlen d = 3 \<and> tgt_maxlen d = 3 \<and> length (samples d) = 2
     \<and> list_all (\<lambda>s. length (fst s) = 3 \<and> length (snd s) = 3) (samples d)"
    using t5 unfolding sm tm by (simp add: stream_def)
  with d show ?thesis
    unfolding stream_def self_def by blast
qed

subsection \<open>Growing vocabularies\<close>

lemma map_of_None_iff: "map_of V c = None \<longleftrightarrow> c \<notin> fst ` set V"
  by (simp add: map_of_eq_None_iff)

lemma vocab_getitem_seen: "map_of V c = Some i \<Longrightarrow> vocab_getitem V c = (i, V)"
  by (simp add: vocab_getitem_def)

lemma vocab_getitem_unseen:
  "map_of V c = None \<Longrightarrow> vocab_getitem V c = (length V, V @ [(c, length V)])"
  by (simp add: vocab_getitem_def)

lemma vocab_getitem_result:
  assumes "vocab_getitem V c = (i, V')"
  shows "map_of V' c = Some i" and "map_of V \<subseteq>\<^sub>m map_of V'"
    and "vocab_wf V \<Longrightarrow> vocab_wf V'"
proof -
  show "map_of V' c = Some i"
    using assms by (auto simp: vocab_getitem_def map_add_Some_iff split: option.splits)
  show "map_of V \<subseteq>\<^sub>m map_of V'"
    using assms by (auto simp: vocab_getitem_def map_le_def map_add_def dom_def split: option.splits)
  show "vocab_wf V'" if "vocab_wf V"
    using assms that
    by (auto simp: vocab_getitem_def vocab_wf_def map_of_None_iff split: option.splits)
qed

lemma vocab_getitem_again:
  "vocab_getitem (snd (vocab_getitem V c)) c = (fst (vocab_getitem V c), snd (vocab_getitem V c))"
  using vocab_getitem_result(1) [of V c "fst (vocab_getitem V c)" "snd (vocab_getitem V c)"]
  by (simp add: vocab_getitem_seen)

lemma vocab_getitems_result:
  "vocab_getitems V cs = (is, V') \<Longrightarrow>
     map_of V \<subseteq>\<^sub>m map_of V' \<and> set cs \<subseteq> dom (map_of V')
     \<and> is = map (\<lambda>c. the (map_of V' c)) cs \<and> (vocab_wf V \<longrightarrow> vocab_wf V')"
proof (induction cs arbitrary: V "is" V')
  case Nil
  then show ?case by simp
next
  case (Cons c cs)
  obtain i V1 where g: "vocab_getitem V c = (i, V1)" by (cases "vocab_getitem V c")
  obtain js V2 where r: "vocab_getitems V1 cs = (js, V2)" by (cases "vocab_getitems V1 cs")
  from Cons.prems g r have eq: "is = i # js" "V' = V2" by simp_all
  note a = vocab_getitem_result [OF g]
  note b = Cons.IH [OF r]
  from a(2) b have le: "map_of V \<subseteq>\<^sub>m map_of V2" by (blast intro: map_le_trans)
  from a(1) b have c: "map_of V2 c = Some i"
    by (auto simp: map_le_def dom_def)
  from a(3) b have wf: "vocab_wf V \<longrightarrow> vocab_wf V2" by blast
  from le c b wf show ?case unfolding eq by auto
qed

lemma vocab_getitems_append:
  "vocab_getitems V (as @ bs) =
     (fst (vocab_getitems V as) @ fst (vocab_getitems (snd (vocab_getitems V as)) bs),
      snd (vocab_getitems (snd (vocab_getitems V as)) bs))"
  by (induction as arbitrary: V) (auto split: prod.splits)

lemma remdups_snoc: "remdups (xs @ [c]) = remdups (filter (\<lambda>x. x \<noteq> c) xs) @ [c]"
  by (induction xs) auto

lemma first_seen_Cons:
  "rev (remdups (rev (c # cs))) = c # rev (remdups (rev (filter (\<lambda>x. x \<noteq> c) cs)))"
  by (simp add: remdups_snoc rev_filter)

lemma snd_vocab_getitems_Cons:
  "snd (vocab_getitems V (c # cs)) = snd (vocab_getitems (snd (vocab_getitem V c)) cs)"
  by (simp split: prod.splits)

lemma vocab_getitems_closed:
  "snd (vocab_getitems V cs) =
     V @ zip (rev (remdups (rev (filter (\<lambda>c. c \<notin> fst ` set V) cs))))
             [length V..<length V + length (remdups (rev (filter (\<lambda>c. c \<notin> fst ` set V) cs)))]"
proof (induction cs arbitrary: V)
  case Nil
  show ?case by simp
next
  case (Cons c cs)
  show ?case
  proof (cases "c \<in> fst ` set V")
    case True
    then obtain i where "map_of V c = Some i"
      using map_of_None_iff [of V c] by (cases "map_of V c") auto
    then have vi: "vocab_getitem V c = (i, V)" by (rule vocab_getitem_seen)
    have "snd (vocab_getitems V (c # cs)) = snd (vocab_getitems V cs)"
      unfolding snd_vocab_getitems_Cons vi by simp
    then show ?thesis using True Cons.IH [of V] by simp
  next
    case False
    then have "map_of V c = None" by (simp add: map_of_None_iff)
    then have g: "vocab_getitem V c = (length V, V @ [(c, length V)])" by (rule vocab_getitem_unseen)
    let ?V1 = "V @ [(c, length V)]"
    define ys where "ys = filter (\<lambda>x. x \<notin> fst ` set V) cs"
    define new where "new = filter (\<lambda>x. x \<notin> fst ` set ?V1) cs"
    have f: "new = filter (\<lambda>x. x \<noteq> c) ys"
      unfolding new_def ys_def by (auto intro: filter_cong)
    have y: "filter (\<lambda>x. x \<notin> fst ` set V) (c # cs) = c # ys"
      using False by (simp add: ys_def)
    have s: "snd (vocab_getitems V (c # cs)) = snd (vocab_getitems ?V1 cs)"
      unfolding snd_vocab_getitems_Cons g by simp
    have k: "rev (remdups (rev (c # ys))) = c # rev (remdups (rev new))"
      unfolding f by (rule first_seen_Cons)
    have "length (rev (remdups (rev (c # ys)))) = length (c # rev (remdups (rev new)))"
      by (simp only: k)
    then have l: "length (remdups (rev (c # ys))) = Suc (length (remdups (rev new)))"
      by (simp del: rev.simps remdups.simps)
    have "snd (vocab_getitems ?V1 cs) =
        ?V1 @ zip (rev (remdups (rev new))) [length ?V1..<length ?V1 + length (remdups (rev new))]"
      unfolding new_def by (rule Cons.IH)
    then show ?thesis
      unfolding s y k l
      by (simp add: upt_rec [of "length V"] del: upt_Suc)
  qed
qed

lemma vocab_get_dom:
  "c \<in> dom (map_of V) \<Longrightarrow> map_of V \<subseteq>\<^sub>m map_of V' \<Longrightarrow> vocab_get V' c d = the (map_of V c)"
  by (auto simp: vocab_get_def map_le_def dom_def split: option.splits)

lemma map_vocab_get_dom:
  assumes "set cs \<subseteq> dom (map_of V)" "map_of V \<subseteq>\<^sub>m map_of V'"
  shows "map (\<lambda>c. vocab_get V' c d) cs = map (\<lambda>c. the (map_of V c)) cs"
  using assms by (intro map_cong refl vocab_get_dom) auto

lemma encode_sample_frozen_store: "snd (encode_sample True sr tr smax tmax p h) = h"
  by (cases p) (simp add: encode_sample_def)

lemma encode_sample_frozen_cong:
  assumes "map (\<lambda>c. vocab_get (h sr) c UNK) (fst p) = map (\<lambda>c. vocab_get (h' sr) c UNK) (fst p)"
    and "map (\<lambda>c. vocab_get (h tr) c UNK) (snd p) = map (\<lambda>c. vocab_get (h' tr) c UNK) (snd p)"
  shows "fst (encode_sample True sr tr smax tmax p h) = fst (encode_sample True sr tr smax tmax p h')"
  using assms by (cases p) (simp add: encode_sample_def)

lemma encode_sample_growing:
  assumes "encode_sample False sr tr smax tmax p h = (s, h1)"
  shows "h1 r = snd (vocab_getitems (h r) ((if r = sr then fst p else []) @ (if r = tr then snd p else [])))"
    and "s = fst (encode_sample True sr tr smax tmax p h1)"
    and "set (fst p) \<subseteq> dom (map_of (h1 sr))" and "set (snd p) \<subseteq> dom (map_of (h1 tr))"
    and "map_of (h r) \<subseteq>\<^sub>m map_of (h1 r)"
    and "vocab_wf (h r) \<Longrightarrow> vocab_wf (h1 r)"
proof -
  obtain src tgt where p: "p = (src, tgt)" by (cases p)
  obtain "is" V1 where g1: "vocab_getitems (h sr) src = (is, V1)"
    by (cases "vocab_getitems (h sr) src")
  obtain js V2 where g2: "vocab_getitems (if tr = sr then V1 else h tr) tgt = (js, V2)"
    by (cases "vocab_getitems (if tr = sr then V1 else h tr) tgt")
  from assms have s: "s = (is @ replicate (smax - length src) PAD,
                          js @ [EOS] @ replicate (tmax - length tgt) PAD)"
    and h1: "h1 = (h(sr := V1))(tr := V2)"
    by (simp_all add: encode_sample_def p g1 g2)
  note r1 = vocab_getitems_result [OF g1]
  note r2 = vocab_getitems_result [OF g2]
  have le12: "map_of V1 \<subseteq>\<^sub>m map_of (h1 sr)"
    using r2 by (auto simp: h1)
  show "h1 r = snd (vocab_getitems (h r) ((if r = sr then fst p else []) @ (if r = tr then snd p else [])))"
    using g1 g2 by (auto simp: h1 p vocab_getitems_append)
  have a: "map (\<lambda>c. vocab_get (h1 sr) c UNK) src = is"
    using map_vocab_get_dom [of src V1 "h1 sr" UNK] r1 le12 by simp
  have "map_of V2 \<subseteq>\<^sub>m map_of (h1 tr)" by (simp add: h1)
  then have b: "map (\<lambda>c. vocab_get (h1 tr) c UNK) tgt = js"
    using map_vocab_get_dom [of tgt V2 "h1 tr" UNK] r2 by simp
  show "s = fst (encode_sample True sr tr smax tmax p h1)"
    by (simp add: encode_sample_def p s a b)
  show "set (fst p) \<subseteq> dom (map_of (h1 sr))"
    using r1 le12 by (auto simp: p map_le_def dom_def)
  show "set (snd p) \<subseteq> dom (map_of (h1 tr))"
    using r2 by (simp add: p h1)
  show "map_of (h r) \<subseteq>\<^sub>m map_of (h1 r)"
    using r1 r2 by (auto simp: h1 intro: map_le_trans split: if_splits)
  show "vocab_wf (h1 r)" if "vocab_wf (h r)"
    using r1 r2 that by (auto simp: h1 split: if_splits)
qed

lemma encode_samples_frozen:
  "encode_samples True sr tr smax tmax ps h acc =
     (acc @ map (\<lambda>p. fst (encode_sample True sr tr smax tmax p h)) ps, h)"
proof (induction ps arbitrary: acc)
  case Nil
  show ?case by simp
next
  case (Cons p ps)
  obtain s h1 where e: "encode_sample True sr tr smax tmax p h = (s, h1)"
    by (cases "encode_sample True sr tr smax tmax p h")
  with encode_sample_frozen_store [of sr tr smax tmax p h] have "h1 = h" by simp
  with e show ?case by (simp add: Cons.IH)
qed

lemma encode_samples_growing:
  assumes "encode_samples False sr tr smax tmax ps h acc = (smp, h')"
  shows "(\<forall>r. h' r = snd (vocab_getitems (h r) (tokens_through sr tr r ps))
            \<and> map_of (h r) \<subseteq>\<^sub>m map_of (h' r)
            \<and> (vocab_wf (h r) \<longrightarrow> vocab_wf (h' r)))
     \<and> smp = acc @ map (\<lambda>p. fst (encode_sample True sr tr smax tmax p h')) ps
     \<and> (\<forall>p\<in>set ps. set (fst p) \<subseteq> dom (map_of (h' sr)) \<and> set (snd p) \<subseteq> dom (map_of (h' tr)))"
  using assms
proof (induction ps arbitrary: h acc)
  case Nil
  then show ?case by (simp add: tokens_through_def)
next
  case (Cons p ps)
  obtain s h1 where e: "encode_sample False sr tr smax tmax p h = (s, h1)"
    by (cases "encode_sample False sr tr smax tmax p h")
  with Cons.prems have r: "encode_samples False sr tr smax tmax ps h1 (acc @ [s]) = (smp, h')"
    by simp
  note ih = Cons.IH [OF r]
  note g = encode_sample_growing [OF e]
  from ih have le: "map_of (h1 x) \<subseteq>\<^sub>m map_of (h' x)" for x by blast
  have tt: "tokens_through sr tr x (p # ps) =
      ((if x = sr then fst p else []) @ (if x = tr then snd p else [])) @ tokens_through sr tr x ps" for x
    by (simp add: tokens_through_def)
  have 1: "\<forall>x. h' x = snd (vocab_getitems (h x) (tokens_through sr tr x (p # ps)))
            \<and> map_of (h x) \<subseteq>\<^sub>m map_of (h' x)
            \<and> (vocab_wf (h x) \<longrightarrow> vocab_wf (h' x))"
  proof (intro allI conjI)
    fix x
    from ih have "h' x = snd (vocab_getitems (h1 x) (tokens_through sr tr x ps))" by blast
    moreover define t where "t = (if x = sr then fst p else []) @ (if x = tr then snd p else [])"
    moreover have "h1 x = snd (vocab_getitems (h x) t)"
      unfolding t_def by (rule g(1))
    moreover have "snd (vocab_getitems (h x) (t @ tokens_through sr tr x ps)) =
        snd (vocab_getitems (snd (vocab_getitems (h x) t)) (tokens_through sr tr x ps))"
      by (simp add: vocab_getitems_append)
    moreover have "tokens_through sr tr x (p # ps) = t @ tokens_through sr tr x ps"
      unfolding t_def by (rule tt)
    ultimately show "h' x = snd (vocab_getitems (h x) (tokens_through sr tr x (p # ps)))"
      by simp
    show "map_of (h x) \<subseteq>\<^sub>m map_of (h' x)"
      using g(5) [of x] le [of x] by (rule map_le_trans)
    show "vocab_wf (h x) \<longrightarrow> vocab_wf (h' x)"
      using g(6) [of x] ih by blast
  qed
  have a: "map (\<lambda>c. vocab_get (h1 sr) c UNK) (fst p) = map (\<lambda>c. vocab_get (h' sr) c UNK) (fst p)"
    using map_vocab_get_dom [OF g(3) le [of sr], of UNK]
      map_vocab_get_dom [OF g(3) map_le_refl, of UNK] by simp
  have b: "map (\<lambda>c. vocab_get (h1 tr) c UNK) (snd p) = map (\<lambda>c. vocab_get (h' tr) c UNK) (snd p)"
    using map_vocab_get_dom [OF g(4) le [of tr], of UNK]
      map_vocab_get_dom [OF g(4) map_le_refl, of UNK] by simp
  have s: "s = fst (encode_sample True sr tr smax tmax p h')"
    unfolding g(2) by (rule encode_sample_frozen_cong [OF a b])
  from ih have "smp = (acc @ [s]) @ map (\<lambda>p. fst (encode_sample True sr tr smax tmax p h')) ps"
    by blast
  with s have 2: "smp = acc @ map (\<lambda>p. fst (encode_sample True sr tr smax tmax p h')) (p # ps)"
    by simp
  have "set (fst p) \<subseteq> dom (map_of (h' sr))" "set (snd p) \<subseteq> dom (map_of (h' tr))"
    using g(3) g(4) map_le_implies_dom_le [OF le [of sr]] map_le_implies_dom_le [OF le [of tr]]
    by blast+
  moreover from ih
  have "\<forall>q\<in>set ps. set (fst q) \<subseteq> dom (map_of (h' sr)) \<and> set (snd q) \<subseteq> dom (map_of (h' tr))"
    by blast
  ultimately
  have 3: "\<forall>q\<in>set (p # ps). set (fst q) \<subseteq> dom (map_of (h' sr)) \<and> set (snd q) \<subseteq> dom (map_of (h' tr))"
    by simp
  from 1 2 3 show ?case by blast
qed

lemma init_constants_store:
  "init_constants 0 (if b then 0 else 1) (\<lambda>r. []) 0 = CONSTANTS"
  "init_constants 0 (if b then 0 else 1) (\<lambda>r. []) (if b then 0 else 1) = CONSTANTS"
  by (simp_all add: init_constants_def CONSTANTS_def)

lemma Dataset_new_fields:
  "src_vocab (Dataset_new c) = 0"
  "tgt_vocab (Dataset_new c) = (if share_vocab c then 0 else 1)"
  "store (Dataset_new c) (src_vocab (Dataset_new c)) = CONSTANTS"
  "store (Dataset_new c) (tgt_vocab (Dataset_new c)) = CONSTANTS"
  "cfg (Dataset_new c) = c"
  "tgt_inv_vocab (Dataset_new c) = None"
  using init_constants_store [of "share_vocab c"]
  by (simp_all add: Dataset_new_def Let_def)

lemma vocab_wf_CONSTANTS: "vocab_wf CONSTANTS"
  by (simp add: vocab_wf_def CONSTANTS_def upt_rec)

lemma Dataset_init_Inr:
  assumes "Dataset_init c stream = Inr d"
  obtains d0 where "load_data_from_stream (Dataset_new c) stream False = Inr d0"
    and "d = update_config d0"
  using assms by (auto simp: Dataset_init_def split: sum.splits)

lemma update_config_fields:
  "store (update_config d) = store d" "src_vocab (update_config d) = src_vocab d"
  "tgt_vocab (update_config d) = tgt_vocab d" "samples (update_config d) = samples d"
  "raw_samples (update_config d) = raw_samples d" "src_maxlen (update_config d) = src_maxlen d"
  "tgt_maxlen (update_config d) = tgt_maxlen d" "src_seqlen (update_config d) = src_seqlen d"
  "tgt_seqlen (update_config d) = tgt_seqlen d" "tgt_inv_vocab (update_config d) = tgt_inv_vocab d"
  by (simp_all add: update_config_def)

lemma load_growing_store:
  assumes "load_data_from_stream self stream False = Inr d"
  shows "store d r = snd (vocab_getitems (store self r)
            (tokens_through (src_vocab self) (tgt_vocab self) r (raw_samples d)))"
    and "map_of (store self r) \<subseteq>\<^sub>m map_of (store d r)"
    and "vocab_wf (store self r) \<Longrightarrow> vocab_wf (store d r)"
    and "samples d = map (\<lambda>p. fst (encode_sample True (src_vocab d) (tgt_vocab d)
            (src_maxlen d) (tgt_maxlen d - 1) p (store d))) (raw_samples d)"
    and "\<forall>p\<in>set (raw_samples d). set (fst p) \<subseteq> dom (map_of (store d (src_vocab d)))
            \<and> set (snd p) \<subseteq> dom (map_of (store d (tgt_vocab d)))"
proof -
  note f = load_Inr_fields [OF assms]
  have "encode_samples False (src_vocab self) (tgt_vocab self) (src_maxlen d) (tgt_maxlen d - 1)
          (raw_samples d) (store self) [] = (samples d, store d)"
    unfolding f(7) f(8) by simp
  note g = encode_samples_growing [OF this]
  from g show "store d r = snd (vocab_getitems (store self r)
            (tokens_through (src_vocab self) (tgt_vocab self) r (raw_samples d)))" by blast
  from g show "map_of (store self r) \<subseteq>\<^sub>m map_of (store d r)" by blast
  from g show "vocab_wf (store self r) \<Longrightarrow> vocab_wf (store d r)" by blast
  from g show "samples d = map (\<lambda>p. fst (encode_sample True (src_vocab d) (tgt_vocab d)
            (src_maxlen d) (tgt_maxlen d - 1) p (store d))) (raw_samples d)"
    unfolding f(9) f(10) by simp
  from g show "\<forall>p\<in>set (raw_samples d). set (fst p) \<subseteq> dom (map_of (store d (src_vocab d)))
            \<and> set (snd p) \<subseteq> dom (map_of (store d (tgt_vocab d)))"
    unfolding f(9) f(10) by blast
qed

lemma load_frozen_store:
  assumes "load_data_from_stream self stream True = Inr d"
  shows "store d = store self"
    and "samples d = map (\<lambda>p. fst (encode_sample True (src_vocab d) (tgt_vocab d)
            (src_maxlen d) (tgt_maxlen d - 1) p (store d))) (raw_samples d)"
proof -
  note f = load_Inr_fields [OF assms]
  show s: "store d = store self"
    unfolding f(8) encode_samples_frozen by simp
  show "samples d = map (\<lambda>p. fst (encode_sample True (src_vocab d) (tgt_vocab d)
            (src_maxlen d) (tgt_maxlen d - 1) p (store d))) (raw_samples d)"
    unfolding s f(9) f(10) unfolding f(7) encode_samples_frozen by simp
qed

lemma tokens_through_cases:
  "sr \<noteq> tr \<Longrightarrow> tokens_through sr tr sr ps = concat (map fst ps)"
  "sr \<noteq> tr \<Longrightarrow> tokens_through sr tr tr ps = concat (map snd ps)"
  "tokens_through sr sr sr ps = concat (map (\<lambda>p. fst p @ snd p) ps)"
  by (simp_all add: tokens_through_def comp_def)

lemma length_CONSTANTS: "length CONSTANTS = 4"
  by (simp add: CONSTANTS_def)

lemma grow_from_CONSTANTS:
  "snd (vocab_getitems CONSTANTS toks) =
     CONSTANTS @ zip (first_encounter (filter (\<lambda>c. c \<notin> fst ` set CONSTANTS) toks))
       [4..<4 + length (first_encounter (filter (\<lambda>c. c \<notin> fst ` set CONSTANTS) toks))]"
  unfolding vocab_getitems_closed [of CONSTANTS toks] first_encounter_def length_CONSTANTS
  by simp

lemma Dataset_init_store:
  assumes "Dataset_init c stream = Inr d"
  shows "src_vocab d = 0" and "tgt_vocab d = (if share_vocab c then 0 else 1)"
    and "\<not> share_vocab c \<Longrightarrow> store d (src_vocab d) =
           snd (vocab_getitems CONSTANTS (concat (map fst (raw_samples d))))"
    and "\<not> share_vocab c \<Longrightarrow> store d (tgt_vocab d) =
           snd (vocab_getitems CONSTANTS (concat (map snd (raw_samples d))))"
    and "share_vocab c \<Longrightarrow> store d (src_vocab d) =
           snd (vocab_getitems CONSTANTS (concat (map (\<lambda>p. fst p @ snd p) (raw_samples d))))"
    and "samples d = map (\<lambda>p. fst (encode_sample True (src_vocab d) (tgt_vocab d)
            (src_maxlen d) (tgt_maxlen d - 1) p (store d))) (raw_samples d)"
    and "vocab_wf (store d (src_vocab d))" and "vocab_wf (store d (tgt_vocab d))"
    and "map_of CONSTANTS \<subseteq>\<^sub>m map_of (store d (tgt_vocab d))"
    and "\<forall>p\<in>set (raw_samples d). set (fst p) \<subseteq> dom (map_of (store d (src_vocab d)))
            \<and> set (snd p) \<subseteq> dom (map_of (store d (tgt_vocab d)))"
    and "tgt_inv_vocab d = None"
proof -
  from assms obtain d0 where l: "load_data_from_stream (Dataset_new c) stream False = Inr d0"
    and d: "d = update_config d0" by (rule Dataset_init_Inr)
  note f = load_Inr_fields [OF l]
  note g = load_growing_store [OF l]
  note n = Dataset_new_fields [of c]
  note u = update_config_fields [of d0]
  show sv: "src_vocab d = 0" by (simp add: d u f(9) n)
  show tv: "tgt_vocab d = (if share_vocab c then 0 else 1)" by (simp add: d u f(10) n)
  have s0: "src_vocab d0 = src_vocab (Dataset_new c)" "tgt_vocab d0 = tgt_vocab (Dataset_new c)"
    by (rule f(9), rule f(10))
  show "store d (src_vocab d) = snd (vocab_getitems CONSTANTS (concat (map fst (raw_samples d))))"
    if "\<not> share_vocab c"
  proof -
    have ne: "src_vocab (Dataset_new c) \<noteq> tgt_vocab (Dataset_new c)" using that by (simp add: n)
    show ?thesis
      unfolding d u s0 g(1) [of "src_vocab (Dataset_new c)"] tokens_through_cases(1) [OF ne] n(3) ..
  qed
  show "store d (tgt_vocab d) = snd (vocab_getitems CONSTANTS (concat (map snd (raw_samples d))))"
    if "\<not> share_vocab c"
  proof -
    have ne: "src_vocab (Dataset_new c) \<noteq> tgt_vocab (Dataset_new c)" using that by (simp add: n)
    show ?thesis
      unfolding d u s0 g(1) [of "tgt_vocab (Dataset_new c)"] tokens_through_cases(2) [OF ne] n(4) ..
  qed
  show "store d (src_vocab d) =
           snd (vocab_getitems CONSTANTS (concat (map (\<lambda>p. fst p @ snd p) (raw_samples d))))"
    if "share_vocab c"
  proof -
    have e: "tgt_vocab (Dataset_new c) = src_vocab (Dataset_new c)" using that by (simp add: n)
    show ?thesis
      unfolding d u s0 g(1) [of "src_vocab (Dataset_new c)"] e tokens_through_cases(3) n(3) ..
  qed
  show "samples d = map (\<lambda>p. fst (encode_sample True (src_vocab d) (tgt_vocab d)
            (src_maxlen d) (tgt_maxlen d - 1) p (store d))) (raw_samples d)"
    unfolding d u by (rule g(4))
  show "vocab_wf (store d (src_vocab d))"
    unfolding d u s0 using g(3) [of "src_vocab (Dataset_new c)"] vocab_wf_CONSTANTS
    by (simp add: n(3))
  show "vocab_wf (store d (tgt_vocab d))"
    unfolding d u s0 using g(3) [of "tgt_vocab (Dataset_new c)"] vocab_wf_CONSTANTS
    by (simp add: n(4))
  show "map_of CONSTANTS \<subseteq>\<^sub>m map_of (store d (tgt_vocab d))"
    unfolding d u s0 using g(2) [of "tgt_vocab (Dataset_new c)"] by (simp add: n(4))
  show "\<forall>p\<in>set (raw_samples d). set (fst p) \<subseteq> dom (map_of (store d (src_vocab d)))
            \<and> set (snd p) \<subseteq> dom (map_of (store d (tgt_vocab d)))"
    unfolding d u by (rule g(5))
  show "tgt_inv_vocab d = None"
    unfolding d u f(12) by (rule n(6))
qed

lemma Dataset_init_Inr_iff:
  "(\<exists>d. Dataset_init c stream = Inr d) \<longleftrightarrow>
     stream \<noteq> [] \<and> (\<forall>l\<in>set stream. count_list l TAB = 1)"
  using load_Inr_iff [of "Dataset_new c" stream False]
  by (auto simp: Dataset_init_def split: sum.splits)

lemma Dataset_init_raw_samples:
  assumes "Dataset_init c stream = Inr d"
  shows "raw_samples d = map (\<lambda>l. projr (parse_line l)) stream"
proof -
  from assms obtain d0 where l: "load_data_from_stream (Dataset_new c) stream False = Inr d0"
    and d: "d = update_config d0" by (rule Dataset_init_Inr)
  show ?thesis unfolding d update_config_fields by (rule load_Inr_fields(2) [OF l])
qed

lemma example_parsed:
  "map (\<lambda>l. projr (parse_line l)) [''a b c'' @ [TAB] @ ''x y'' @ [NL], ''a b'' @ [TAB] @ ''x'' @ [NL]] =
      [([''a'', ''b'', ''c''], [''x'', ''y'']), ([''a'', ''b''], [''x''])]"
  by (simp add: parse_line_def rstrip_nl_def TAB_def NL_def SPACE_def)

text \<open>
  Claim C7. In the growing mode, looking up a token that the dictionary does not hold
  returns the size of the dictionary and inserts the token with that id; looking up a
  token it holds returns the id it has and changes nothing. So after the construction of
  a training dataset each dictionary is the four reserved items followed by the new
  tokens in the order of their first encounter, numbered from 4: the source tokens for
  the source dictionary and the target tokens for the target dictionary when the two are
  not shared, the source and target tokens of the samples in turn when they are. For the
  lines \<^verbatim>\<open>a b c<TAB>x y\<close> and \<^verbatim>\<open>a b<TAB>x\<close> the source dictionary gives 4, 5, 6
  to a, b, c and the unshared target dictionary gives 4, 5 to x, y.
\<close>

theorem growing_lookup_first_encounter_order:
  "(map_of (store self (src_vocab self)) ch = None \<longrightarrow>
      src_lookup self ch False =
        (length (store self (src_vocab self)),
         self\<lparr>store := (store self)(src_vocab self :=
                 store self (src_vocab self) @ [(ch, length (store self (src_vocab self)))])\<rparr>))
   \<and> (\<forall>i. map_of (store self (src_vocab self)) ch = Some i \<longrightarrow>
         src_lookup self ch False = (i, self))
   \<and> (\<forall>d. Dataset_init c stream = Inr d \<longrightarrow>
         (\<not> share_vocab c \<longrightarrow>
            store d (src_vocab d) =
              CONSTANTS @ zip (first_encounter (filter (\<lambda>t. t \<notin> fst ` set CONSTANTS)
                                 (concat (map fst (raw_samples d)))))
                [4..<4 + length (first_encounter (filter (\<lambda>t. t \<notin> fst ` set CONSTANTS)
                                 (concat (map fst (raw_samples d)))))]
          \<and> store d (tgt_vocab d) =
              CONSTANTS @ zip (first_encounter (filter (\<lambda>t. t \<notin> fst ` set CONSTANTS)
                                 (concat (map snd (raw_samples d)))))
                [4..<4 + length (first_encounter (filter (\<lambda>t. t \<notin> fst ` set CONSTANTS)
                                 (concat (map snd (raw_samples d)))))])
       \<and> (share_vocab c \<longrightarrow>
            tgt_vocab d = src_vocab d
          \<and> store d (src_vocab d) =
              CONSTANTS @ zip (first_encounter (filter (\<lambda>t. t \<notin> fst ` set CONSTANTS)
                                 (concat (map (\<lambda>p. fst p @ snd p) (raw_samples d)))))
                [4..<4 + length (first_encounter (filter (\<lambda>t. t \<notin> fst ` set CONSTANTS)
                                 (concat (map (\<lambda>p. fst p @ snd p) (raw_samples d)))))]))"
proof -
  have 1: "map_of (store self (src_vocab self)) ch = None \<longrightarrow>
      src_lookup self ch False =
        (length (store self (src_vocab self)),
         self\<lparr>store := (store self)(src_vocab self :=
                 store self (src_vocab self) @ [(ch, length (store self (src_vocab self)))])\<rparr>)"
    by (simp add: src_lookup_def vocab_getitem_def)
  have 2: "\<forall>i. map_of (store self (src_vocab self)) ch = Some i \<longrightarrow>
         src_lookup self ch False = (i, self)"
    by (simp add: src_lookup_def vocab_getitem_def)
  have 3: "\<not> share_vocab c \<longrightarrow>
            store d (src_vocab d) =
              CONSTANTS @ zip (first_encounter (filter (\<lambda>t. t \<notin> fst ` set CONSTANTS)
                                 (concat (map fst (raw_samples d)))))
                [4..<4 + length (first_encounter (filter (\<lambda>t. t \<notin> fst ` set CONSTANTS)
                                 (concat (map fst (raw_samples d)))))]
          \<and> store d (tgt_vocab d) =
              CONSTANTS @ zip (first_encounter (filter (\<lambda>t. t \<notin> fst ` set CONSTANTS)
                                 (concat (map snd (raw_samples d)))))
                [4..<4 + length (first_encounter (filter (\<lambda>t. t \<notin> fst ` set CONSTANTS)
                                 (concat (map snd (raw_samples d)))))]"
    if "Dataset_init c stream = Inr d" for d
    using Dataset_init_store(3,4) [OF that] by (simp only: grow_from_CONSTANTS) blast
  have 4: "share_vocab c \<longrightarrow>
            tgt_vocab d = src_vocab d
          \<and> store d (src_vocab d) =
              CONSTANTS @ zip (first_encounter (filter (\<lambda>t. t \<notin> fst ` set CONSTANTS)
                                 (concat (map (\<lambda>p. fst p @ snd p) (raw_samples d)))))
                [4..<4 + length (first_encounter (filter (\<lambda>t. t \<notin> fst ` set CONSTANTS)
                                 (concat (map (\<lambda>p. fst p @ snd p) (raw_samples d)))))]"
    if "Dataset_init c stream = Inr d" for d
    using Dataset_init_store(1,2,5) [OF that] by (simp only: grow_from_CONSTANTS) simp
  from 1 2 3 4 show ?thesis by blast
qed

theorem growing_lookup_first_encounter_order_witness:
  "\<exists>d. Dataset_init \<lparr>share_vocab = False, input_size = 0, output_size = 0\<rparr>
         [''a b c'' @ [TAB] @ ''x y'' @ [NL], ''a b'' @ [TAB] @ ''x'' @ [NL]] = Inr d
     \<and> store d (src_vocab d) =
         [(''PAD'', 0), (''SOS'', 1), (''EOS'', 2), (''UNK'', 3), (''a'', 4), (''b'', 5), (''c'', 6)]
     \<and> store d (tgt_vocab d) =
         [(''PAD'', 0), (''SOS'', 1), (''EOS'', 2), (''UNK'', 3), (''x'', 4), (''y'', 5)]"
proof -
  define stream where "stream = [''a b c'' @ [TAB] @ ''x y'' @ [NL], ''a b'' @ [TAB] @ ''x'' @ [NL]]"
  define c where "c = \<lparr>share_vocab = False, input_size = 0, output_size = 0\<rparr>"
  have "stream \<noteq> [] \<and> (\<forall>l\<in>set stream. count_list l TAB = 1)"
    by (simp add: stream_def TAB_def NL_def)
  with Dataset_init_Inr_iff [of c stream]
  obtain d where d: "Dataset_init c stream = Inr d" by blast
  have r: "raw_samples d = [([''a'', ''b'', ''c''], [''x'', ''y'']), ([''a'', ''b''], [''x''])]"
    using Dataset_init_raw_samples [OF d] example_parsed by (simp add: stream_def)
  have ns: "\<not> share_vocab c" by (simp add: c_def)
  from growing_lookup_first_encounter_order [of undefined undefined c stream] d ns
  have "store d (src_vocab d) =
              CONSTANTS @ zip (first_encounter (filter (\<lambda>t. t \<notin> fst ` set CONSTANTS)
                                 (concat (map fst (raw_samples d)))))
                [4..<4 + length (first_encounter (filter (\<lambda>t. t \<notin> fst ` set CONSTANTS)
                                 (concat (map fst (raw_samples d)))))]
          \<and> store d (tgt_vocab d) =
              CONSTANTS @ zip (first_encounter (filter (\<lambda>t. t \<notin> fst ` set CONSTANTS)
                                 (concat (map snd (raw_samples d)))))
                [4..<4 + length (first_encounter (filter (\<lambda>t. t \<notin> fst ` set CONSTANTS)
                                 (concat (map snd (raw_samples d)))))]"
    by blast
  then have "store d (src_vocab d) =
         [(''PAD'', 0), (''SOS'', 1), (''EOS'', 2), (''UNK'', 3), (''a'', 4), (''b'', 5), (''c'', 6)]
     \<and> store d (tgt_vocab d) =
         [(''PAD'', 0), (''SOS'', 1), (''EOS'', 2), (''UNK'', 3), (''x'', 4), (''y'', 5)]"
    unfolding r by (simp add: first_encounter_def CONSTANTS_def upt_rec)
  with d show ?thesis unfolding stream_def c_def by blast
qed

subsection \<open>The shared vocabulary\<close>

lemma encode_sample_frozen_eq:
  "fst (encode_sample True sr tr smax tmax p h) =
     (map (\<lambda>c. vocab_get (h sr) c UNK) (fst p) @ replicate (smax - length (fst p)) PAD,
      map (\<lambda>c. vocab_get (h tr) c UNK) (snd p) @ [EOS] @ replicate (tmax - length (snd p)) PAD)"
  by (cases p) (simp add: encode_sample_def)

lemma vocab_get_Some: "map_of V c = Some i \<Longrightarrow> vocab_get V c d = i"
  by (simp add: vocab_get_def)

lemma vocab_get_in_dom: "c \<in> dom (map_of V) \<Longrightarrow> map_of V c = Some (vocab_get V c d)"
  by (auto simp: vocab_get_def)

text \<open>The rows of a dataset whose samples are the frozen encoding of its raw samples
  under its own store (every dataset that a load returns).\<close>

lemma encoded_rows:
  assumes s: "samples d = map (\<lambda>p. fst (encode_sample True (src_vocab d) (tgt_vocab d)
            (src_maxlen d) (tgt_maxlen d - 1) p (store d))) (raw_samples d)"
    and i: "i < length (raw_samples d)"
  shows "fst (samples d ! i) =
           map (\<lambda>c. vocab_get (store d (src_vocab d)) c UNK) (fst (raw_samples d ! i))
           @ replicate (src_maxlen d - length (fst (raw_samples d ! i))) PAD"
    and "snd (samples d ! i) =
           map (\<lambda>c. vocab_get (store d (tgt_vocab d)) c UNK) (snd (raw_samples d ! i))
           @ [EOS] @ replicate (tgt_maxlen d - 1 - length (snd (raw_samples d ! i))) PAD"
  using i unfolding s by (simp_all add: encode_sample_frozen_eq)

lemma encoded_ids:
  assumes s: "samples d = map (\<lambda>p. fst (encode_sample True (src_vocab d) (tgt_vocab d)
            (src_maxlen d) (tgt_maxlen d - 1) p (store d))) (raw_samples d)"
    and i: "i < length (raw_samples d)"
  shows "j < length (fst (raw_samples d ! i)) \<Longrightarrow>
           fst (samples d ! i) ! j = vocab_get (store d (src_vocab d)) (fst (raw_samples d ! i) ! j) UNK"
    and "j < length (snd (raw_samples d ! i)) \<Longrightarrow>
           snd (samples d ! i) ! j = vocab_get (store d (tgt_vocab d)) (snd (raw_samples d ! i) ! j) UNK"
    and "snd (samples d ! i) ! length (snd (raw_samples d ! i)) = EOS"
    and "length (snd (raw_samples d ! i)) < j \<Longrightarrow> j < length (snd (samples d ! i)) \<Longrightarrow>
           snd (samples d ! i) ! j = PAD"
  unfolding encoded_rows [OF s i]
  by (simp_all add: nth_append)

text \<open>
  Claim C6. With \<^verbatim>\<open>share_vocab\<close> set, the source and the target vocabulary of a
  training dataset are one dictionary object: the two references are equal. After
  loading, looking a token up through the source role and through the target role gives
  the same id, in the frozen and in the growing mode; an insertion made through one role
  is at once in the dictionary that the other role reads (for \<^verbatim>\<open>src_lookup\<close> on the
  loaded dataset, and for an insertion through the target role on any state of the store,
  as in the encoding loop); and in the loaded samples the id of every source token is the
  id that the target role gives it, and the id of every target token the id that the
  source role gives it.
\<close>

theorem shared_vocab_is_one_mapping:
  assumes "share_vocab c" and "Dataset_init c stream = Inr d"
  shows "tgt_vocab d = src_vocab d
     \<and> (\<forall>tok. vocab_get (store d (src_vocab d)) tok UNK = vocab_get (store d (tgt_vocab d)) tok UNK)
     \<and> (\<forall>tok. fst (src_lookup d tok True) = vocab_get (store d (tgt_vocab d)) tok UNK)
     \<and> (\<forall>tok. fst (src_lookup d tok False) = fst (vocab_getitem (store d (tgt_vocab d)) tok))
     \<and> (\<forall>tok. map_of (store (snd (src_lookup d tok False)) (tgt_vocab d)) tok
                 = Some (fst (src_lookup d tok False)))
     \<and> (\<forall>h tok. map_of ((h(tgt_vocab d := snd (vocab_getitem (h (tgt_vocab d)) tok))) (src_vocab d)) tok
                 = Some (fst (vocab_getitem (h (tgt_vocab d)) tok)))
     \<and> (\<forall>i<length (raw_samples d).
           (\<forall>j<length (fst (raw_samples d ! i)).
              map_of (store d (tgt_vocab d)) (fst (raw_samples d ! i) ! j) = Some (fst (samples d ! i) ! j))
         \<and> (\<forall>j<length (snd (raw_samples d ! i)).
              map_of (store d (src_vocab d)) (snd (raw_samples d ! i) ! j) = Some (snd (samples d ! i) ! j)))"
proof -
  note f = Dataset_init_store [OF assms(2)]
  from f(1,2) assms(1) have e: "tgt_vocab d = src_vocab d" by simp
  have 2: "\<forall>tok. vocab_get (store d (src_vocab d)) tok UNK = vocab_get (store d (tgt_vocab d)) tok UNK"
    by (simp add: e)
  have 3: "\<forall>tok. fst (src_lookup d tok True) = vocab_get (store d (tgt_vocab d)) tok UNK"
    by (simp add: e src_lookup_def)
  have 4: "\<forall>tok. fst (src_lookup d tok False) = fst (vocab_getitem (store d (tgt_vocab d)) tok)"
    by (simp add: e src_lookup_def split: prod.splits)
  have 5: "\<forall>tok. map_of (store (snd (src_lookup d tok False)) (tgt_vocab d)) tok
                 = Some (fst (src_lookup d tok False))"
  proof
    fix tok
    obtain i V where g: "vocab_getitem (store d (src_vocab d)) tok = (i, V)"
      by (cases "vocab_getitem (store d (src_vocab d)) tok")
    from vocab_getitem_result(1) [OF g] show "map_of (store (snd (src_lookup d tok False)) (tgt_vocab d)) tok
                 = Some (fst (src_lookup d tok False))"
      by (simp add: e src_lookup_def g)
  qed
  have 6: "\<forall>h tok. map_of ((h(tgt_vocab d := snd (vocab_getitem (h (tgt_vocab d)) tok))) (src_vocab d)) tok
                 = Some (fst (vocab_getitem (h (tgt_vocab d)) tok))"
  proof (intro allI)
    fix h :: store and tok
    obtain i V where g: "vocab_getitem (h (src_vocab d)) tok = (i, V)"
      by (cases "vocab_getitem (h (src_vocab d)) tok")
    from vocab_getitem_result(1) [OF g]
    show "map_of ((h(tgt_vocab d := snd (vocab_getitem (h (tgt_vocab d)) tok))) (src_vocab d)) tok
                 = Some (fst (vocab_getitem (h (tgt_vocab d)) tok))"
      by (simp add: e g)
  qed
  have 7: "\<forall>i<length (raw_samples d).
           (\<forall>j<length (fst (raw_samples d ! i)).
              map_of (store d (tgt_vocab d)) (fst (raw_samples d ! i) ! j) = Some (fst (samples d ! i) ! j))
         \<and> (\<forall>j<length (snd (raw_samples d ! i)).
              map_of (store d (src_vocab d)) (snd (raw_samples d ! i) ! j) = Some (snd (samples d ! i) ! j))"
  proof (intro allI impI conjI)
    fix i j assume i: "i < length (raw_samples d)" and j: "j < length (fst (raw_samples d ! i))"
    from i have "raw_samples d ! i \<in> set (raw_samples d)" by simp
    with f(10) j have "fst (raw_samples d ! i) ! j \<in> dom (map_of (store d (src_vocab d)))"
      by (meson nth_mem subsetD)
    from vocab_get_in_dom [OF this, of UNK] encoded_ids(1) [OF f(6) i j]
    show "map_of (store d (tgt_vocab d)) (fst (raw_samples d ! i) ! j) = Some (fst (samples d ! i) ! j)"
      by (simp add: e)
  next
    fix i j assume i: "i < length (raw_samples d)" and j: "j < length (snd (raw_samples d ! i))"
    from i have "raw_samples d ! i \<in> set (raw_samples d)" by simp
    with f(10) j have "snd (raw_samples d ! i) ! j \<in> dom (map_of (store d (tgt_vocab d)))"
      by (meson nth_mem subsetD)
    from vocab_get_in_dom [OF this, of UNK] encoded_ids(2) [OF f(6) i j]
    show "map_of (store d (src_vocab d)) (snd (raw_samples d ! i) ! j) = Some (snd (samples d ! i) ! j)"
      by (simp add: e)
  qed
  from e 2 3 4 5 6 7 show ?thesis by blast
qed


theorem shared_vocab_is_one_mapping_witness:
  "share_vocab \<lparr>share_vocab = True, input_size = 0, output_size = 0\<rparr>
   \<and> (\<exists>d. Dataset_init \<lparr>share_vocab = True, input_size = 0, output_size = 0\<rparr>
              [''x'' @ [TAB] @ ''y'' @ [NL], ''y'' @ [TAB] @ ''x'' @ [NL]] = Inr d
          \<and> tgt_vocab d = src_vocab d
          \<and> raw_samples d = [([''x''], [''y'']), ([''y''], [''x''])]
          \<and> map_of (store d (tgt_vocab d)) ''x'' = Some (fst (samples d ! 0) ! 0)
          \<and> map_of (store d (src_vocab d)) ''x'' = Some (snd (samples d ! 1) ! 0))"
proof -
  define stream where "stream = [''x'' @ [TAB] @ ''y'' @ [NL], ''y'' @ [TAB] @ ''x'' @ [NL]]"
  define c where "c = \<lparr>share_vocab = True, input_size = 0, output_size = 0\<rparr>"
  have sh: "share_vocab c" by (simp add: c_def)
  have "stream \<noteq> [] \<and> (\<forall>l\<in>set stream. count_list l TAB = 1)"
    by (simp add: stream_def TAB_def NL_def)
  with Dataset_init_Inr_iff [of c stream]
  obtain d where d: "Dataset_init c stream = Inr d" by blast
  have r: "raw_samples d = [([''x''], [''y'']), ([''y''], [''x''])]"
    unfolding Dataset_init_raw_samples [OF d]
    by (simp add: stream_def parse_line_def rstrip_nl_def TAB_def NL_def SPACE_def)
  note t = shared_vocab_is_one_mapping [OF sh d]
  from t have e: "tgt_vocab d = src_vocab d" by blast
  from t have a: "\<forall>i<length (raw_samples d).
           (\<forall>j<length (fst (raw_samples d ! i)).
              map_of (store d (tgt_vocab d)) (fst (raw_samples d ! i) ! j) = Some (fst (samples d ! i) ! j))
         \<and> (\<forall>j<length (snd (raw_samples d ! i)).
              map_of (store d (src_vocab d)) (snd (raw_samples d ! i) ! j) = Some (snd (samples d ! i) ! j))"
    by blast
  from a [rule_format, of 0, THEN conjunct1, rule_format, of 0]
  have x0: "map_of (store d (tgt_vocab d)) ''x'' = Some (fst (samples d ! 0) ! 0)"
    by (simp add: r)
  from a [rule_format, of 1, THEN conjunct2, rule_format, of 0]
  have x1: "map_of (store d (src_vocab d)) ''x'' = Some (snd (samples d ! 1) ! 0)"
    by (simp add: r)
  from sh d e r x0 x1 show ?thesis unfolding stream_def c_def by blast
qed

subsection \<open>Reverse lookup\<close>

lemma invert_vocab_wf:
  assumes "vocab_wf V" and "map_of V c = Some i"
  shows "invert_vocab V i = Some c"
proof -
  from assms(1) have "distinct (map snd V)" by (simp add: vocab_wf_def)
  then have d: "distinct (map fst (rev (map (\<lambda>(ch, i). (i, ch)) V)))"
    by (simp add: rev_map [symmetric] comp_def case_prod_unfold distinct_rev)
  from assms(2) have "(c, i) \<in> set V" by (rule map_of_SomeD)
  then have "(i, c) \<in> set (rev (map (\<lambda>(ch, i). (i, ch)) V))" by force
  with d show ?thesis unfolding invert_vocab_def by (rule map_of_is_SomeI)
qed

lemma tgt_reverse_lookup_fresh:
  "tgt_inv_vocab d = None \<Longrightarrow>
     tgt_reverse_lookup d idx =
       ((case invert_vocab (store d (tgt_vocab d)) idx of None \<Rightarrow> ''<UNK>'' | Some ch \<Rightarrow> ch),
        d\<lparr>tgt_inv_vocab := Some (invert_vocab (store d (tgt_vocab d)))\<rparr>)"
  by (simp add: tgt_reverse_lookup_def Let_def)

lemma tgt_reverse_lookup_cached:
  "tgt_inv_vocab d = Some m \<Longrightarrow>
     tgt_reverse_lookup d idx = ((case m idx of None \<Rightarrow> ''<UNK>'' | Some ch \<Rightarrow> ch), d)"
  by (simp add: tgt_reverse_lookup_def Let_def)

lemma vocab_get_not_default: "vocab_get V c d \<noteq> d \<Longrightarrow> map_of V c = Some (vocab_get V c d)"
  by (cases "map_of V c") (simp_all add: vocab_get_def)

lemma map_of_CONSTANTS_EOS: "map_of CONSTANTS ''EOS'' = Some EOS"
  by (simp add: CONSTANTS_def EOS_def)

lemma round_trip_core:
  assumes w: "vocab_wf (store d (tgt_vocab d))"
    and c: "map_of CONSTANTS \<subseteq>\<^sub>m map_of (store d (tgt_vocab d))"
    and s: "samples d = map (\<lambda>p. fst (encode_sample True (src_vocab d) (tgt_vocab d)
            (src_maxlen d) (tgt_maxlen d - 1) p (store d))) (raw_samples d)"
    and i: "i < length (samples d)" and j: "j < length (snd (samples d ! i))"
    and p: "snd (samples d ! i) ! j \<noteq> PAD" and u: "snd (samples d ! i) ! j \<noteq> UNK"
  shows "invert_vocab (store d (tgt_vocab d)) (snd (samples d ! i) ! j) =
           Some (if j < length (snd (raw_samples d ! i)) then snd (raw_samples d ! i) ! j
                 else ''EOS'')"
proof -
  from i have i': "i < length (raw_samples d)" by (simp add: s)
  note e = encoded_ids [OF s i']
  consider "j < length (snd (raw_samples d ! i))" | "j = length (snd (raw_samples d ! i))"
    | "length (snd (raw_samples d ! i)) < j" by linarith
  then show ?thesis
  proof cases
    case 1
    from e(2) [OF 1] u
    have "map_of (store d (tgt_vocab d)) (snd (raw_samples d ! i) ! j) = Some (snd (samples d ! i) ! j)"
      using vocab_get_not_default [of "store d (tgt_vocab d)" "snd (raw_samples d ! i) ! j" UNK]
      by simp
    from invert_vocab_wf [OF w this] 1 show ?thesis by simp
  next
    case 2
    from c map_of_CONSTANTS_EOS have "map_of (store d (tgt_vocab d)) ''EOS'' = Some EOS"
      by (auto simp: map_le_def dom_def)
    from invert_vocab_wf [OF w this] e(3) 2 show ?thesis by simp
  next
    case 3
    from e(4) [OF 3 j] p show ?thesis by simp
  qed
qed

lemma ValidationDataset_init_store:
  assumes "ValidationDataset_init train vstream = Inr d"
  shows "store d = store train" and "tgt_vocab d = tgt_vocab train" and "src_vocab d = src_vocab train"
    and "samples d = map (\<lambda>p. fst (encode_sample True (src_vocab d) (tgt_vocab d)
            (src_maxlen d) (tgt_maxlen d - 1) p (store d))) (raw_samples d)"
    and "tgt_inv_vocab d = None"
proof -
  from assms have l: "load_data_from_stream (ValidationDataset_new train) vstream True = Inr d"
    by (simp add: ValidationDataset_init_def)
  note f = load_Inr_fields [OF l]
  note g = load_frozen_store [OF l]
  show "store d = store train" unfolding g(1) by (simp add: ValidationDataset_new_def)
  show "tgt_vocab d = tgt_vocab train" unfolding f(10) by (simp add: ValidationDataset_new_def)
  show "src_vocab d = src_vocab train" unfolding f(9) by (simp add: ValidationDataset_new_def)
  show "samples d = map (\<lambda>p. fst (encode_sample True (src_vocab d) (tgt_vocab d)
            (src_maxlen d) (tgt_maxlen d - 1) p (store d))) (raw_samples d)" by (rule g(2))
  show "tgt_inv_vocab d = None" unfolding f(12) by (simp add: ValidationDataset_new_def)
qed

text \<open>
  Claim C8. Take a training dataset, or a validation dataset built on it, whose inverse
  map is either not yet cached or was cached by an earlier call on the same target
  vocabulary (the vocabulary has not grown since). For every id of an encoded target row
  other than PAD and UNK, \<^verbatim>\<open>tgt_reverse_lookup\<close> returns the token that stands at that
  position of the raw target sequence; at the position after the last token, where the
  row holds EOS, it returns the marker \<^verbatim>\<open>EOS\<close>. An id that the cached inverse map does
  not hold gives the literal \<^verbatim>\<open><UNK>\<close> and no failure.
\<close>

theorem reverse_lookup_round_trip:
  assumes "Dataset_init c stream = Inr train"
    and "d = train \<or> ValidationDataset_init train vstream = Inr d"
    and "d' = d \<or> d' = snd (tgt_reverse_lookup d k)"
    and "i < length (samples d)" and "j < length (snd (samples d ! i))"
    and "snd (samples d ! i) ! j \<noteq> PAD" and "snd (samples d ! i) ! j \<noteq> UNK"
  shows "fst (tgt_reverse_lookup d' (snd (samples d ! i) ! j)) =
           (if j < length (snd (raw_samples d ! i)) then snd (raw_samples d ! i) ! j else ''EOS'')
     \<and> (\<forall>st m idx. tgt_inv_vocab st = Some m \<and> m idx = None \<longrightarrow>
           fst (tgt_reverse_lookup st idx) = ''<UNK>'')
     \<and> (\<forall>idx. invert_vocab (store d (tgt_vocab d)) idx = None \<longrightarrow>
           fst (tgt_reverse_lookup d' idx) = ''<UNK>'')"
proof -
  note f = Dataset_init_store [OF assms(1)]
  have w: "vocab_wf (store d (tgt_vocab d))"
    and cn: "map_of CONSTANTS \<subseteq>\<^sub>m map_of (store d (tgt_vocab d))"
    and s: "samples d = map (\<lambda>p. fst (encode_sample True (src_vocab d) (tgt_vocab d)
            (src_maxlen d) (tgt_maxlen d - 1) p (store d))) (raw_samples d)"
    and n: "tgt_inv_vocab d = None"
    using assms(2) f(6,8,9,11) ValidationDataset_init_store [of train vstream d]
    by auto
  note r = round_trip_core [OF w cn s assms(4-7)]
  have l: "fst (tgt_reverse_lookup d' idx) =
      (case invert_vocab (store d (tgt_vocab d)) idx of None \<Rightarrow> ''<UNK>'' | Some ch \<Rightarrow> ch)" for idx
    using assms(3)
  proof
    assume "d' = d"
    then show ?thesis by (simp add: tgt_reverse_lookup_fresh [OF n])
  next
    assume "d' = snd (tgt_reverse_lookup d k)"
    then have "tgt_inv_vocab d' = Some (invert_vocab (store d (tgt_vocab d)))"
      by (simp add: tgt_reverse_lookup_fresh [OF n])
    then show ?thesis by (simp add: tgt_reverse_lookup_cached)
  qed
  have 1: "fst (tgt_reverse_lookup d' (snd (samples d ! i) ! j)) =
           (if j < length (snd (raw_samples d ! i)) then snd (raw_samples d ! i) ! j else ''EOS'')"
    unfolding l r by simp
  have 2: "\<forall>st m idx. tgt_inv_vocab st = Some m \<and> m idx = None \<longrightarrow>
           fst (tgt_reverse_lookup st idx) = ''<UNK>''"
    by (simp add: tgt_reverse_lookup_cached)
  have 3: "\<forall>idx. invert_vocab (store d (tgt_vocab d)) idx = None \<longrightarrow>
           fst (tgt_reverse_lookup d' idx) = ''<UNK>''"
    by (simp add: l)
  from 1 2 3 show ?thesis by blast
qed


theorem reverse_lookup_round_trip_witness:
  "\<exists>d. Dataset_init \<lparr>share_vocab = False, input_size = 0, output_size = 0\<rparr>
         [''a b c'' @ [TAB] @ ''x y'' @ [NL], ''a b'' @ [TAB] @ ''x'' @ [NL]] = Inr d
     \<and> 0 < length (samples d) \<and> 0 < length (snd (samples d ! 0))
     \<and> snd (samples d ! 0) ! 0 = 4 \<and> 4 \<noteq> PAD \<and> 4 \<noteq> UNK
     \<and> snd (raw_samples d ! 0) ! 0 = ''x''
     \<and> fst (tgt_reverse_lookup d 4) = ''x''"
proof -
  define stream where "stream = [''a b c'' @ [TAB] @ ''x y'' @ [NL], ''a b'' @ [TAB] @ ''x'' @ [NL]]"
  define c where "c = \<lparr>share_vocab = False, input_size = 0, output_size = 0\<rparr>"
  have "stream \<noteq> [] \<and> (\<forall>l\<in>set stream. count_list l TAB = 1)"
    by (simp add: stream_def TAB_def NL_def)
  with Dataset_init_Inr_iff [of c stream]
  obtain d where d: "Dataset_init c stream = Inr d" by blast
  have r: "raw_samples d = [([''a'', ''b'', ''c''], [''x'', ''y'']), ([''a'', ''b''], [''x''])]"
    using Dataset_init_raw_samples [OF d] example_parsed by (simp add: stream_def)
  note f = Dataset_init_store [OF d]
  have ns: "\<not> share_vocab c" by (simp add: c_def)
  have V: "store d (tgt_vocab d) =
      [(''PAD'', 0), (''SOS'', 1), (''EOS'', 2), (''UNK'', 3), (''x'', 4), (''y'', 5)]"
    unfolding f(4) [OF ns] grow_from_CONSTANTS r
    by (simp add: first_encounter_def CONSTANTS_def upt_rec)
  have i: "0 < length (samples d)" unfolding f(6) by (simp add: r)
  have i': "0 < length (raw_samples d)" by (simp add: r)
  have row: "snd (samples d ! 0) =
      map (\<lambda>c. vocab_get (store d (tgt_vocab d)) c UNK) (snd (raw_samples d ! 0))
      @ [EOS] @ replicate (tgt_maxlen d - 1 - length (snd (raw_samples d ! 0))) PAD"
    by (rule encoded_rows(2) [OF f(6) i'])
  have j: "0 < length (snd (samples d ! 0))" unfolding row by simp
  have v: "snd (samples d ! 0) ! 0 = 4" unfolding row V by (simp add: r vocab_get_def)
  have p: "snd (samples d ! 0) ! 0 \<noteq> PAD" "snd (samples d ! 0) ! 0 \<noteq> UNK"
    unfolding v by (simp_all add: PAD_def UNK_def)
  from reverse_lookup_round_trip [OF d disjI1 [OF refl] disjI1 [OF refl] i j p]
  have "fst (tgt_reverse_lookup d (snd (samples d ! 0) ! 0)) = ''x''"
    by (simp add: r)
  then have "fst (tgt_reverse_lookup d 4) = ''x''" unfolding v .
  with d i j v r show ?thesis unfolding stream_def c_def
    by (auto simp: PAD_def UNK_def)
qed

subsection \<open>Sequential batches\<close>

lemma py_range_nat: "py_range (int a) (int b) = map int [a..<b]"
proof (induction b)
  case 0
  show ?case by (simp add: py_range_def)
next
  case (Suc b)
  show ?case
  proof (cases "a \<le> b")
    case True
    then have "[int a..int (Suc b) - 1] = [int a..int b - 1] @ [int b]"
      using upto_rec2 [of "int a" "int b"] by simp
    with Suc True show ?thesis by (simp add: py_range_def)
  next
    case False
    then show ?thesis by (simp add: py_range_def)
  qed
qed

lemma py_nth_nat: "i < length xs \<Longrightarrow> py_nth xs (int i) = Inr (xs ! i)"
  by (simp add: py_nth_def)

lemma map_err_Inr: "(\<And>x. x \<in> set xs \<Longrightarrow> f x = Inr (g x)) \<Longrightarrow> map_err f xs = Inr (map g xs)"
  by (induction xs) simp_all

lemma take_drop_nth: "b \<le> length xs \<Longrightarrow> map (\<lambda>k. xs ! k) [a..<b] = take (b - a) (drop a xs)"
  by (intro nth_equalityI) (auto simp: min_def)

lemma map_err_nth:
  assumes "b \<le> length xs"
  shows "map_err (py_nth xs) (py_range (int a) (int b)) = Inr (take (b - a) (drop a xs))"
proof -
  have "map_err (py_nth xs) (map int [a..<b]) = Inr (map (\<lambda>k. xs ! nat k) (map int [a..<b]))"
    using assms by (intro map_err_Inr) (auto simp: py_nth_def)
  moreover have "map (\<lambda>k. xs ! nat k) (map int [a..<b]) = map (\<lambda>k. xs ! k) [a..<b]"
    by simp
  ultimately show ?thesis
    using take_drop_nth [OF assms, of a] by (simp add: py_range_nat)
qed

lemma py_slice_nat:
  assumes "b \<le> length xs"
  shows "py_slice xs (int a) (int b) = take (b - a) (drop a xs)"
proof (cases "a \<le> length xs")
  case True
  with assms show ?thesis by (simp add: py_slice_def py_clip_def min_def)
next
  case False
  with assms show ?thesis by (simp add: py_slice_def py_clip_def min_def)
qed

lemma LongTensor_transposed_ok:
  assumes "xs \<noteq> []" and "\<forall>r\<in>set xs. length r = L"
  shows "\<exists>M. LongTensor_transposed xs = Inr M \<and> n_cols M = length xs \<and> n_rows M = L
           \<and> (\<forall>k<length xs. column M k = xs ! k)"
proof -
  from assms(1) obtain r rs where x: "xs = r # rs" by (cases xs) auto
  with assms(2) have r: "length r = L" and rs: "list_all (\<lambda>r'. length r' = length r) rs"
    by (auto simp: list_all_iff)
  define M where "M = \<lparr>n_rows = length r, n_cols = length xs,
                    cells = map (\<lambda>j. map (\<lambda>row. row ! j) xs) [0..<length r]\<rparr>"
  have t: "LongTensor_transposed xs = Inr M"
    using rs by (simp add: LongTensor_transposed_def x M_def)
  have c: "column M k = xs ! k" if "k < length xs" for k
  proof -
    from that assms(2) have l: "length (xs ! k) = L" by simp
    have "column M k = map (\<lambda>j. (xs ! k) ! j) [0..<L]"
      using that by (simp add: column_def M_def r comp_def)
    also have "\<dots> = xs ! k" using l map_nth [of "xs ! k"] by simp
    finally show ?thesis .
  qed
  from t c r show ?thesis by (auto simp: M_def)
qed

lemma ceil_div_nat:
  assumes "0 < (b::nat)"
  shows "(N + b - 1) div b = (if N mod b = 0 then N div b else N div b + 1)"
proof (cases "N mod b = 0")
  case True
  then have "b dvd N" by (simp add: mod_eq_0_iff_dvd)
  then obtain q where q: "N = b * q" by (rule dvdE)
  then have N: "N = q * b" by (simp add: mult.commute)
  define r where "r = b - 1"
  have r: "r < b" using assms by (simp add: r_def)
  have 1: "N + b - 1 = q * b + r" using N assms by (simp add: r_def)
  have 2: "(q * b + r) div b = q" using r by simp
  have 3: "N div b = q" using N assms by simp
  show ?thesis unfolding 1 2 using True 3 by simp
next
  case False
  define q r where "q = N div b" and "r = N mod b"
  have N: "N = q * b + r" by (simp add: q_def r_def)
  have r: "0 < r" "r < b" using False assms by (simp_all add: r_def)
  define r' where "r' = r - 1"
  have r': "r' < b" using r by (simp add: r'_def)
  have 1: "N + b - 1 = (q + 1) * b + r'" using N r by (simp add: algebra_simps r'_def)
  have 2: "((q + 1) * b + r') div b = q + 1"
    using div_mult_self3 [of b "q + 1" r'] r' by simp
  show ?thesis unfolding 1 2 using False by (simp add: q_def)
qed

lemma batch_count_nat:
  assumes "0 < b"
  shows "(let n = int N; batch_count = n div int b
          in (if batch_count * int b < n then batch_count + 1 else batch_count))
         = int ((N + b - 1) div b)"
proof -
  have e: "int N div int b = int (N div b)" by (simp add: zdiv_int)
  have m: "N div b * b < N \<longleftrightarrow> N mod b \<noteq> 0"
    using div_mult_mod_eq [of N b] by linarith
  have "int (N div b) * int b = int (N div b * b)" by simp
  then have i: "int (N div b) * int b < int N \<longleftrightarrow> N mod b \<noteq> 0"
    using m by (simp only: of_nat_less_iff)
  show ?thesis unfolding Let_def e i ceil_div_nat [OF assms] by simp
qed

lemma batch_count_ceiling:
  assumes "0 < b"
  shows "int ((N + b - 1) div b) = \<lceil>real N / real b\<rceil>"
proof -
  have "\<lceil>real N / real b\<rceil> = \<lceil>real_of_int (int N) / real_of_int (int b)\<rceil>" by simp
  also have "\<dots> = - (- int N div int b)" by (rule ceiling_divide_eq_div)
  also have "\<dots> = (if int N mod int b = 0 then int N div int b else int N div int b + 1)"
    using assms by (simp add: zdiv_zminus1_eq_if)
  also have "\<dots> = int (if N mod b = 0 then N div b else N div b + 1)"
    by (simp flip: of_nat_mod of_nat_div)
  finally show ?thesis unfolding ceil_div_nat [OF assms] by simp
qed

lemma batch_index_in_range:
  assumes "0 < (b::nat)" and "i < (N + b - 1) div b"
  shows "i * b < N"
proof -
  from assms(2) have "Suc i \<le> (N + b - 1) div b" by simp
  then have "Suc i * b \<le> N + b - 1"
    using assms(1) by (simp add: less_eq_div_iff_mult_less_eq)
  then show ?thesis using assms(1) by (cases N) auto
qed

lemma concat_chunks:
  "concat (map (\<lambda>i. take b (drop (i * b) xs)) [0..<k]) = take (k * b) xs"
proof (induction k)
  case 0
  show ?case by simp
next
  case (Suc k)
  have "take (k * b + b) xs = take (k * b) xs @ take b (drop (k * b) xs)"
    by (rule take_add)
  with Suc show ?case by (simp add: add.commute)
qed

lemma mset_concat_cong:
  "(\<And>i. i \<in> set js \<Longrightarrow> mset (g i) = mset (h i)) \<Longrightarrow>
     mset (concat (map g js)) = mset (concat (map h js))"
  by (induction js) simp_all

lemma load_wellformed:
  assumes "load_data_from_stream self stream frozen = Inr d"
  shows "length (src_seqlen d) = length (samples d)"
    and "length (tgt_seqlen d) = length (samples d)"
    and "\<forall>s\<in>set (samples d). length (fst s) = src_maxlen d \<and> length (snd s) = tgt_maxlen d"
    and "samples d \<noteq> []"
    and "src_seqlen d = map (\<lambda>p. length (fst p)) (raw_samples d)"
proof -
  note f = load_Inr_fields [OF assms]
  note l = load_samples_lengths [OF assms]
  from l have "length (map (\<lambda>s. (length (fst s), length (snd s))) (samples d)) =
           length (map (\<lambda>p. (src_maxlen d, tgt_maxlen d)) (raw_samples d))" by (simp only:)
  then have len: "length (samples d) = length (raw_samples d)" by simp
  show "length (src_seqlen d) = length (samples d)" by (simp add: f(5) len)
  show "length (tgt_seqlen d) = length (samples d)" by (simp add: f(6) len)
  show "\<forall>s\<in>set (samples d). length (fst s) = src_maxlen d \<and> length (snd s) = tgt_maxlen d"
  proof
    fix s assume "s \<in> set (samples d)"
    then have "(length (fst s), length (snd s)) \<in> set (map (\<lambda>s. (length (fst s), length (snd s))) (samples d))"
      by (simp add: image_iff) blast
    then show "length (fst s) = src_maxlen d \<and> length (snd s) = tgt_maxlen d"
      unfolding l by auto
  qed
  show "samples d \<noteq> []" using len f(1) f(2) by auto
  show "src_seqlen d = map (\<lambda>p. length (fst p)) (raw_samples d)" by (rule f(5))
qed

lemma entries_eq:
  assumes "length (src_seqlen d) = length (samples d)" "length (tgt_seqlen d) = length (samples d)"
  shows "zip (map fst (samples d)) (zip (map snd (samples d)) (zip (src_seqlen d) (tgt_seqlen d))) =
           map (sample_entry d) [0..<length (samples d)]"
  using assms by (intro nth_equalityI) (simp_all add: sample_entry_def)

lemma take_chunk:
  assumes "a < length xs"
  shows "take (min (a + b) (length xs) - a) (drop a xs) = take b (drop a xs)"
  using assms by (cases "a + b \<le> length xs") (simp_all add: min_def)

lemma sorted_batch_tensors:
  assumes sb: "sb \<noteq> []"
    and rows: "\<forall>q\<in>set sb. length (fst q) = L1 \<and> length (fst (snd q)) = L2"
  shows "\<exists>bt. (case LongTensor_transposed (map fst sb) of
                 Inl e \<Rightarrow> Inl e
               | Inr src \<Rightarrow>
                 (case LongTensor_transposed (map (\<lambda>x. fst (snd x)) sb) of
                    Inl e \<Rightarrow> Inl e
                  | Inr tgt \<Rightarrow>
                      Inr \<lparr>b_src = src, b_tgt = tgt,
                           b_src_len = map (\<lambda>x. fst (snd (snd x))) sb,
                           b_tgt_len = map (\<lambda>x. snd (snd (snd x))) sb\<rparr>)) = Inr bt
          \<and> n_cols (b_src bt) = length sb \<and> n_cols (b_tgt bt) = length sb
          \<and> b_src_len bt = map (\<lambda>x. fst (snd (snd x))) sb
          \<and> b_tgt_len bt = map (\<lambda>x. snd (snd (snd x))) sb
          \<and> (\<forall>k<length sb. batch_entry bt k = sb ! k)"
proof -
  from sb rows LongTensor_transposed_ok [of "map fst sb" L1]
  obtain M1 where m1: "LongTensor_transposed (map fst sb) = Inr M1" "n_cols M1 = length sb"
    "\<forall>k<length sb. column M1 k = fst (sb ! k)" by auto
  from sb rows LongTensor_transposed_ok [of "map (\<lambda>x. fst (snd x)) sb" L2]
  obtain M2 where m2: "LongTensor_transposed (map (\<lambda>x. fst (snd x)) sb) = Inr M2"
    "n_cols M2 = length sb" "\<forall>k<length sb. column M2 k = fst (snd (sb ! k))" by auto
  let ?bt = "\<lparr>b_src = M1, b_tgt = M2,
               b_src_len = map (\<lambda>x. fst (snd (snd x))) sb,
               b_tgt_len = map (\<lambda>x. snd (snd (snd x))) sb\<rparr>"
  have "\<forall>k<length sb. batch_entry ?bt k = sb ! k"
    using m1(3) m2(3) by (simp add: batch_entry_def prod_eq_iff)
  then show ?thesis
    using m1(1,2) m2(1,2) by (intro exI [of _ ?bt]) simp
qed

lemma batched_iter_body_ok:
  assumes w: "length (src_seqlen d) = length (samples d)" "length (tgt_seqlen d) = length (samples d)"
      "\<forall>s\<in>set (samples d). length (fst s) = src_maxlen d \<and> length (snd s) = tgt_maxlen d"
    and b: "0 < b" and i: "i * b < length (samples d)"
  defines "sb \<equiv> sort_key (\<lambda>x. - int (fst (snd (snd x))))
                  (take b (drop (i * b) (map (sample_entry d) [0..<length (samples d)])))"
  shows "\<exists>bt. batched_iter_body d (int b) (int i) = Inr bt
          \<and> n_cols (b_src bt) = length sb \<and> n_cols (b_tgt bt) = length sb
          \<and> b_src_len bt = map (\<lambda>x. fst (snd (snd x))) sb
          \<and> b_tgt_len bt = map (\<lambda>x. snd (snd (snd x))) sb
          \<and> (\<forall>k<length sb. batch_entry bt k = sb ! k)"
proof -
  define N where "N = length (samples d)"
  define a where "a = i * b"
  define e where "e = min (a + b) N"
  have st: "int i * int b = int a" by (simp add: a_def)
  have "(int i + 1) * int b = int (a + b)" by (simp add: a_def algebra_simps)
  then have sp: "min ((int i + 1) * int b) (int (length (samples d))) = int e"
    by (simp only: e_def N_def of_nat_min)
  have eN: "e \<le> N" by (simp add: e_def)
  have aN: "a < N" using i by (simp add: a_def N_def)
  have c1: "py_slice (samples d) (int a) (int e) = take b (drop a (samples d))"
    using py_slice_nat [of e "samples d" a] eN take_chunk [of a "samples d" b] aN
    by (simp add: N_def e_def)
  have c2: "map_err (py_nth (src_seqlen d)) (py_range (int a) (int e)) = Inr (take b (drop a (src_seqlen d)))"
    using map_err_nth [of e "src_seqlen d" a] eN take_chunk [of a "src_seqlen d" b] aN w(1)
    by (simp add: N_def e_def)
  have c3: "map_err (py_nth (tgt_seqlen d)) (py_range (int a) (int e)) = Inr (take b (drop a (tgt_seqlen d)))"
    using map_err_nth [of e "tgt_seqlen d" a] eN take_chunk [of a "tgt_seqlen d" b] aN w(2)
    by (simp add: N_def e_def)
  have z: "zip (map fst (take b (drop a (samples d))))
             (zip (map snd (take b (drop a (samples d))))
                (zip (take b (drop a (src_seqlen d))) (take b (drop a (tgt_seqlen d))))) =
           take b (drop a (map (sample_entry d) [0..<length (samples d)]))"
    unfolding entries_eq [OF w(1,2), symmetric]
    by (simp only: take_zip drop_zip take_map drop_map)
  have sbdef: "sb = sort_key (\<lambda>x. - int (fst (snd (snd x))))
                  (take b (drop a (map (sample_entry d) [0..<length (samples d)])))"
    by (simp add: sb_def a_def)
  have ne: "sb \<noteq> []"
  proof -
    have "length sb = min b (N - a)" by (simp add: sbdef N_def)
    with b aN show ?thesis by auto
  qed
  have rows: "\<forall>q\<in>set sb. length (fst q) = src_maxlen d \<and> length (fst (snd q)) = tgt_maxlen d"
  proof
    fix q assume "q \<in> set sb"
    then have "q \<in> set (take b (drop a (map (sample_entry d) [0..<length (samples d)])))"
      by (simp add: sbdef)
    then have "q \<in> set (map (sample_entry d) [0..<length (samples d)])"
      by (meson in_set_dropD in_set_takeD)
    then obtain k where "k < length (samples d)" "q = sample_entry d k" by auto
    with w(3) show "length (fst q) = src_maxlen d \<and> length (fst (snd q)) = tgt_maxlen d"
      by (simp add: sample_entry_def)
  qed
  have body: "batched_iter_body d (int b) (int i) =
      (case LongTensor_transposed (map fst sb) of
                 Inl e \<Rightarrow> Inl e
               | Inr src \<Rightarrow>
                 (case LongTensor_transposed (map (\<lambda>x. fst (snd x)) sb) of
                    Inl e \<Rightarrow> Inl e
                  | Inr tgt \<Rightarrow>
                      Inr \<lparr>b_src = src, b_tgt = tgt,
                           b_src_len = map (\<lambda>x. fst (snd (snd x))) sb,
                           b_tgt_len = map (\<lambda>x. snd (snd (snd x))) sb\<rparr>))"
    unfolding batched_iter_body_def Let_def st sp c1 c2 c3 sum.case z sbdef [symmetric]
    using ne by simp
  show ?thesis
    unfolding body by (rule sorted_batch_tensors [OF ne rows])
qed

lemma batch_count_covers:
  assumes "0 < (b::nat)"
  shows "N \<le> (N + b - 1) div b * b"
proof -
  have "(N + b - 1) mod b < b" using assms by simp
  moreover have "(N + b - 1) div b * b + (N + b - 1) mod b = N + b - 1" by simp
  ultimately show ?thesis by linarith
qed

lemma batched_iter_ok:
  assumes w: "length (src_seqlen d) = length (samples d)" "length (tgt_seqlen d) = length (samples d)"
      "\<forall>s\<in>set (samples d). length (fst s) = src_maxlen d \<and> length (snd s) = tgt_maxlen d"
    and b: "0 < b"
  shows "batched_iter d (int b) =
           Inr (map (\<lambda>i. projr (batched_iter_body d (int b) (int i)))
                  [0..<(length (samples d) + b - 1) div b])"
proof -
  define cnt where "cnt = (length (samples d) + b - 1) div b"
  have body: "batched_iter_body d (int b) x = Inr (projr (batched_iter_body d (int b) (int (nat x))))"
    if "x \<in> set (map int [0..<cnt])" for x
  proof -
    from that obtain i where x: "x = int i" and i: "i < cnt" by auto
    from batch_index_in_range [OF b i [unfolded cnt_def]]
    have "i * b < length (samples d)" .
    from batched_iter_body_ok [OF w b this] obtain bt
      where "batched_iter_body d (int b) (int i) = Inr bt" by blast
    then show ?thesis by (simp add: x)
  qed
  have "map_err (batched_iter_body d (int b)) (map int [0..<cnt]) =
      Inr (map (\<lambda>x. projr (batched_iter_body d (int b) (int (nat x)))) (map int [0..<cnt]))"
    by (rule map_err_Inr) (rule body)
  then have m: "map_err (batched_iter_body d (int b)) (map int [0..<cnt]) =
      Inr (map (\<lambda>i. projr (batched_iter_body d (int b) (int i))) [0..<cnt])"
    by (simp add: comp_def)
  have r: "py_range 0 (int cnt) = map int [0..<cnt]"
    using py_range_nat [of 0 cnt] by simp
  have nz: "int b \<noteq> 0" using b by simp
  show ?thesis
    unfolding batched_iter_def if_not_P [OF nz] Let_def batch_count_nat [OF b, unfolded Let_def]
      cnt_def [symmetric] r m ..
qed

lemma batch_of_chunk:
  assumes w: "length (src_seqlen d) = length (samples d)" "length (tgt_seqlen d) = length (samples d)"
      "\<forall>s\<in>set (samples d). length (fst s) = src_maxlen d \<and> length (snd s) = tgt_maxlen d"
    and b: "0 < b" and i: "i * b < length (samples d)"
  defines "bt \<equiv> projr (batched_iter_body d (int b) (int i))"
  shows "sorted_wrt (\<lambda>x y. y \<le> x) (b_src_len bt)" and "batch_aligned d bt"
    and "mset (batch_samples bt) = mset (take b (drop (i * b) (samples d)))"
    and "1 \<le> n_cols (b_src bt)" and "n_cols (b_src bt) \<le> b"
proof -
  define chunk where "chunk = take b (drop (i * b) (map (sample_entry d) [0..<length (samples d)]))"
  define sb where "sb = sort_key (\<lambda>x. - int (fst (snd (snd x)))) chunk"
  from batched_iter_body_ok [OF w b i] obtain bt' where
    r: "batched_iter_body d (int b) (int i) = Inr bt'"
    and p: "n_cols (b_src bt') = length sb" "n_cols (b_tgt bt') = length sb"
      "b_src_len bt' = map (\<lambda>x. fst (snd (snd x))) sb"
      "b_tgt_len bt' = map (\<lambda>x. snd (snd (snd x))) sb"
      "\<forall>k<length sb. batch_entry bt' k = sb ! k"
    unfolding sb_def chunk_def by blast
  from r have bt: "bt = bt'" by (simp add: bt_def)
  have "sorted (map (\<lambda>x. - int (fst (snd (snd x)))) sb)"
    unfolding sb_def by (rule sorted_sort_key)
  then show "sorted_wrt (\<lambda>x y. y \<le> x) (b_src_len bt)"
    unfolding bt p(3) by (rule sorted_desc_map)
  have mem: "\<exists>j<length (samples d). sb ! k = sample_entry d j" if "k < length sb" for k
  proof -
    from that have "sb ! k \<in> set sb" by simp
    then have "sb ! k \<in> set chunk" by (simp add: sb_def)
    then have "sb ! k \<in> set (map (sample_entry d) [0..<length (samples d)])"
      unfolding chunk_def by (meson in_set_dropD in_set_takeD)
    then show ?thesis by auto
  qed
  show "batch_aligned d bt"
    unfolding batch_aligned_def bt using p mem by simp
  have cols: "batch_samples bt = map (\<lambda>q. (fst q, fst (snd q))) sb"
  proof -
    have "(column (b_src bt') k, column (b_tgt bt') k) = (fst (sb ! k), fst (snd (sb ! k)))"
      if "k < length sb" for k
      using p(5) that by (auto simp: batch_entry_def prod_eq_iff)
    then show ?thesis
      unfolding batch_samples_def bt p(1)
      by (intro nth_equalityI) simp_all
  qed
  have "map (\<lambda>q. (fst q, fst (snd q))) (map (sample_entry d) [0..<length (samples d)]) = samples d"
    by (intro nth_equalityI) (simp_all add: sample_entry_def)
  then have ch: "map (\<lambda>q. (fst q, fst (snd q))) chunk = take b (drop (i * b) (samples d))"
    unfolding chunk_def by (simp only: take_map [symmetric] drop_map [symmetric])
  have "mset (batch_samples bt) = mset (map (\<lambda>q. (fst q, fst (snd q))) chunk)"
    unfolding cols sb_def by simp
  then show "mset (batch_samples bt) = mset (take b (drop (i * b) (samples d)))"
    unfolding ch .
  have len: "length sb = min b (length (samples d) - i * b)"
    by (simp add: sb_def chunk_def)
  show "1 \<le> n_cols (b_src bt)" unfolding bt p(1) len using b i by simp
  show "n_cols (b_src bt) \<le> b" unfolding bt p(1) len by simp
qed

text \<open>
  Claim C4. For every loaded dataset with \<open>N\<close> samples and every batch size of at
  least one, \<^verbatim>\<open>batched_iter\<close> yields \<open>\<lceil>N / batch_size\<rceil>\<close> batches and raises nothing;
  the samples of all batches together (the columns of their matrices) are, as a
  multiset, the samples of the dataset, each as often as the dataset holds it; and every
  batch has at least one and at most \<open>batch_size\<close> samples.
\<close>

theorem sequential_batches_cover:
  assumes "load_data_from_stream self stream frozen = Inr d" and "1 \<le> batch_size"
  shows "\<exists>bl. batched_iter d batch_size = Inr bl
      \<and> int (length bl) = \<lceil>real (length (samples d)) / real_of_int batch_size\<rceil>
      \<and> mset (concat (map batch_samples bl)) = mset (samples d)
      \<and> (\<forall>b\<in>set bl. 1 \<le> n_cols (b_src b) \<and> int (n_cols (b_src b)) \<le> batch_size)"
proof -
  note w = load_wellformed(1-3) [OF assms(1)]
  define b where "b = nat batch_size"
  from assms(2) have b: "0 < b" and bs: "batch_size = int b" by (simp_all add: b_def)
  define N where "N = length (samples d)"
  define cnt where "cnt = (N + b - 1) div b"
  define bl where "bl = map (\<lambda>i. projr (batched_iter_body d (int b) (int i))) [0..<cnt]"
  have r: "batched_iter d batch_size = Inr bl"
    unfolding bs bl_def cnt_def N_def by (rule batched_iter_ok [OF w b])
  have idx: "i * b < length (samples d)" if "i < cnt" for i
    using batch_index_in_range [OF b that [unfolded cnt_def]] by (simp add: N_def)
  have len: "int (length bl) = \<lceil>real (length (samples d)) / real_of_int batch_size\<rceil>"
    using batch_count_ceiling [OF b, of N] by (simp add: bl_def cnt_def bs N_def)
  have "mset (concat (map (\<lambda>i. batch_samples (projr (batched_iter_body d (int b) (int i)))) [0..<cnt]))
      = mset (concat (map (\<lambda>i. take b (drop (i * b) (samples d))) [0..<cnt]))"
  proof (rule mset_concat_cong)
    fix i assume "i \<in> set [0..<cnt]"
    then have "i * b < length (samples d)" using idx by simp
    from batch_of_chunk(3) [OF w b this]
    show "mset (batch_samples (projr (batched_iter_body d (int b) (int i)))) =
        mset (take b (drop (i * b) (samples d)))" .
  qed
  also have "concat (map (\<lambda>i. take b (drop (i * b) (samples d))) [0..<cnt]) = take (cnt * b) (samples d)"
    by (rule concat_chunks)
  also have "\<dots> = samples d"
    using batch_count_covers [OF b, of N] by (simp add: cnt_def N_def)
  finally have cover: "mset (concat (map batch_samples bl)) = mset (samples d)"
    by (simp add: bl_def comp_def)
  have size: "\<forall>x\<in>set bl. 1 \<le> n_cols (b_src x) \<and> int (n_cols (b_src x)) \<le> batch_size"
  proof
    fix x assume "x \<in> set bl"
    then obtain i where i: "i < cnt" and x: "x = projr (batched_iter_body d (int b) (int i))"
      by (auto simp: bl_def)
    from batch_of_chunk(4,5) [OF w b idx [OF i]]
    show "1 \<le> n_cols (b_src x) \<and> int (n_cols (b_src x)) \<le> batch_size"
      by (simp add: x bs)
  qed
  from r len cover size show ?thesis by blast
qed

theorem sequential_batches_cover_witness:
  "\<exists>d bl. load_data_from_stream (Dataset_new \<lparr>share_vocab = False, input_size = 0, output_size = 0\<rparr>)
         [''a b c'' @ [TAB] @ ''x y'' @ [NL], ''a b'' @ [TAB] @ ''x'' @ [NL],
          ''q c c d e'' @ [TAB] @ ''x'' @ [NL]] False = Inr d
     \<and> (1::int) \<le> 2
     \<and> batched_iter d 2 = Inr bl \<and> length (samples d) = 3 \<and> length bl = 2
     \<and> mset (concat (map batch_samples bl)) = mset (samples d)"
proof -
  define stream where "stream = [''a b c'' @ [TAB] @ ''x y'' @ [NL], ''a b'' @ [TAB] @ ''x'' @ [NL],
          ''q c c d e'' @ [TAB] @ ''x'' @ [NL]]"
  define self where "self = Dataset_new \<lparr>share_vocab = False, input_size = 0, output_size = 0\<rparr>"
  have "stream \<noteq> [] \<and> (\<forall>l\<in>set stream. count_list l TAB = 1)"
    by (simp add: stream_def TAB_def NL_def)
  with load_Inr_iff [of self stream False]
  obtain d where d: "load_data_from_stream self stream False = Inr d" by blast
  have n: "length (samples d) = 3"
    using load_wellformed(1,5) [OF d] load_Inr_fields(2) [OF d] by (simp add: stream_def)
  have two: "(1::int) \<le> 2" by simp
  from sequential_batches_cover [OF d two] obtain bl where
    bl: "batched_iter d 2 = Inr bl"
    and l: "int (length bl) = \<lceil>real (length (samples d)) / real_of_int 2\<rceil>"
    and m: "mset (concat (map batch_samples bl)) = mset (samples d)"
    by blast
  have "\<lceil>real 3 / real_of_int 2\<rceil> = (2::int)" by (simp add: ceiling_eq_iff)
  with l n have "length bl = 2" by simp
  with d bl n m two show ?thesis unfolding stream_def self_def by blast
qed

subsection \<open>Order and alignment inside a batch\<close>

lemma py_nth_int: "0 \<le> x \<Longrightarrow> x < int (length xs) \<Longrightarrow> py_nth xs x = Inr (xs ! nat x)"
  by (simp add: py_nth_def)

lemma zip_map_self: "zip xs (map f xs) = map (\<lambda>x. (x, f x)) xs"
  by (induction xs) simp_all

lemma get_random_batch_ok:
  assumes w: "length (src_seqlen d) = length (samples d)" "length (tgt_seqlen d) = length (samples d)"
      "\<forall>s\<in>set (samples d). length (fst s) = src_maxlen d \<and> length (snd s) = tgt_maxlen d"
    and ne: "drawn \<noteq> []"
    and dr: "\<forall>x\<in>set drawn. 0 \<le> x \<and> x < int (length (samples d))"
  shows "\<exists>bt. get_random_batch d drawn = Inr bt
           \<and> sorted_wrt (\<lambda>x y. y \<le> x) (b_src_len bt) \<and> batch_aligned d bt
           \<and> n_cols (b_src bt) = length drawn
           \<and> (\<forall>k<length drawn. \<exists>x\<in>set drawn. batch_entry bt k = sample_entry d (nat x))"
proof -
  define keys where "keys = map (\<lambda>x. src_seqlen d ! nat x) drawn"
  define sp where "sp = sort_key (\<lambda>p. - int (snd p)) (zip drawn keys)"
  define idx where "idx = map fst sp"
  define chosen where "chosen = map (\<lambda>x. samples d ! nat x) idx"
  have k: "map_err (py_nth (src_seqlen d)) drawn = Inr keys"
    unfolding keys_def using dr w(1) by (intro map_err_Inr py_nth_int) auto
  have spset: "set sp = (\<lambda>x. (x, src_seqlen d ! nat x)) ` set drawn"
    by (simp add: sp_def keys_def zip_map_self)
  have idxset: "set idx = set drawn"
    by (auto simp: idx_def spset image_iff)
  have len: "length idx = length drawn"
    by (simp add: idx_def sp_def keys_def)
  have idr: "\<forall>x\<in>set idx. 0 \<le> x \<and> x < int (length (samples d))"
    using dr idxset by simp
  have c: "map_err (py_nth (samples d)) idx = Inr chosen"
    unfolding chosen_def using idr by (intro map_err_Inr py_nth_int) auto
  have sl: "map_err (py_nth (src_seqlen d)) idx = Inr (map (\<lambda>x. src_seqlen d ! nat x) idx)"
    using idr w(1) by (intro map_err_Inr py_nth_int) auto
  have tl: "map_err (py_nth (tgt_seqlen d)) idx = Inr (map (\<lambda>x. tgt_seqlen d ! nat x) idx)"
    using idr w(2) by (intro map_err_Inr py_nth_int) auto
  have cne: "chosen \<noteq> []" using ne len by (auto simp: chosen_def)
  have rows: "\<forall>s\<in>set chosen. length (fst s) = src_maxlen d \<and> length (snd s) = tgt_maxlen d"
  proof
    fix s assume "s \<in> set chosen"
    then obtain x where "x \<in> set idx" "s = samples d ! nat x" by (auto simp: chosen_def)
    with idr have "s \<in> set (samples d)" by (auto intro!: nth_mem)
    with w(3) show "length (fst s) = src_maxlen d \<and> length (snd s) = tgt_maxlen d" by blast
  qed
  from cne rows LongTensor_transposed_ok [of "map fst chosen" "src_maxlen d"]
  obtain M1 where m1: "LongTensor_transposed (map fst chosen) = Inr M1" "n_cols M1 = length chosen"
    "\<forall>k<length chosen. column M1 k = fst (chosen ! k)" by auto
  from cne rows LongTensor_transposed_ok [of "map snd chosen" "tgt_maxlen d"]
  obtain M2 where m2: "LongTensor_transposed (map snd chosen) = Inr M2" "n_cols M2 = length chosen"
    "\<forall>k<length chosen. column M2 k = snd (chosen ! k)" by auto
  define bt where "bt = \<lparr>b_src = M1, b_tgt = M2,
      b_src_len = map (\<lambda>x. src_seqlen d ! nat x) idx,
      b_tgt_len = map (\<lambda>x. tgt_seqlen d ! nat x) idx\<rparr>"
  have r: "get_random_batch d drawn = Inr bt"
    unfolding get_random_batch_def k sum.case Let_def sp_def [symmetric] idx_def [symmetric]
      c m1(1) m2(1) sl tl bt_def ..
  have lc: "length chosen = length drawn" by (simp add: chosen_def len)
  have e: "batch_entry bt k = sample_entry d (nat (idx ! k))" if "k < length drawn" for k
    using that m1(3) m2(3) lc len
    by (simp add: batch_entry_def sample_entry_def bt_def chosen_def)
  have "map (\<lambda>x. src_seqlen d ! nat x) idx = map snd sp"
    unfolding idx_def map_map
  proof (rule map_cong [OF refl])
    fix p assume "p \<in> set sp"
    then show "((\<lambda>x. src_seqlen d ! nat x) \<circ> fst) p = snd p" by (auto simp: spset)
  qed
  moreover have "sorted (map (\<lambda>p. - int (snd p)) sp)"
    unfolding sp_def by (rule sorted_sort_key)
  then have "sorted_wrt (\<lambda>x y. y \<le> x) (map snd sp)" by (rule sorted_desc_map)
  ultimately have s: "sorted_wrt (\<lambda>x y. y \<le> x) (b_src_len bt)" by (simp add: bt_def)
  have mem: "\<exists>x\<in>set drawn. batch_entry bt k = sample_entry d (nat x)" if "k < length drawn" for k
  proof -
    from that len have "idx ! k \<in> set idx" by simp
    with idxset e [OF that] show ?thesis by auto
  qed
  have al: "batch_aligned d bt"
    unfolding batch_aligned_def
  proof (intro conjI allI impI)
    show "n_cols (b_tgt bt) = n_cols (b_src bt)" by (simp add: bt_def m1(2) m2(2))
    show "length (b_src_len bt) = n_cols (b_src bt)" by (simp add: bt_def m1(2) lc len)
    show "length (b_tgt_len bt) = n_cols (b_src bt)" by (simp add: bt_def m1(2) lc len)
    fix k assume "k < n_cols (b_src bt)"
    then have kd: "k < length drawn" by (simp add: bt_def m1(2) lc)
    from mem [OF kd] obtain x where x: "x \<in> set drawn" "batch_entry bt k = sample_entry d (nat x)"
      by blast
    with dr have "nat x < length (samples d)" by auto
    with x show "\<exists>i<length (samples d). batch_entry bt k = sample_entry d i" by blast
  qed
  have nc: "n_cols (b_src bt) = length drawn" by (simp add: bt_def m1(2) lc)
  from r s al nc mem show ?thesis by blast
qed

text \<open>
  Claim C5. For every loaded dataset, every batch that \<^verbatim>\<open>batched_iter\<close> yields (for a
  batch size of at least one) and the batch that \<^verbatim>\<open>get_random_batch\<close> returns (for any
  non-empty draw of indices below the number of samples, repetitions allowed) has source
  lengths that do not increase along the sample axis, and is aligned: at every batch
  position the source column, the target column, the source length and the target length
  are those of one and the same sample of the dataset. The source lengths of the dataset
  are the true token counts of the raw source sequences. Both operations return a batch
  on these inputs; for the random batch the sample at each position is one of the drawn
  ones.
\<close>

theorem batches_sorted_and_aligned:
  assumes "load_data_from_stream self stream frozen = Inr d"
  shows "src_seqlen d = map (\<lambda>p. length (fst p)) (raw_samples d)
     \<and> (\<forall>batch_size\<ge>1. \<exists>bl. batched_iter d batch_size = Inr bl
            \<and> (\<forall>b\<in>set bl. sorted_wrt (\<lambda>x y. y \<le> x) (b_src_len b) \<and> batch_aligned d b))
     \<and> (\<forall>drawn. drawn \<noteq> [] \<and> (\<forall>x\<in>set drawn. 0 \<le> x \<and> x < int (length (samples d))) \<longrightarrow>
            (\<exists>b. get_random_batch d drawn = Inr b
               \<and> sorted_wrt (\<lambda>x y. y \<le> x) (b_src_len b) \<and> batch_aligned d b
               \<and> n_cols (b_src b) = length drawn
               \<and> (\<forall>k<length drawn. \<exists>x\<in>set drawn. batch_entry b k = sample_entry d (nat x))))"
proof -
  note w = load_wellformed(1-3) [OF assms]
  have 1: "src_seqlen d = map (\<lambda>p. length (fst p)) (raw_samples d)"
    by (rule load_wellformed(5) [OF assms])
  have 2: "\<exists>bl. batched_iter d batch_size = Inr bl
            \<and> (\<forall>b\<in>set bl. sorted_wrt (\<lambda>x y. y \<le> x) (b_src_len b) \<and> batch_aligned d b)"
    if "1 \<le> batch_size" for batch_size
  proof -
    define b where "b = nat batch_size"
    from that have b: "0 < b" and bs: "batch_size = int b" by (simp_all add: b_def)
    define cnt where "cnt = (length (samples d) + b - 1) div b"
    define bl where "bl = map (\<lambda>i. projr (batched_iter_body d (int b) (int i))) [0..<cnt]"
    have r: "batched_iter d batch_size = Inr bl"
      unfolding bs bl_def cnt_def by (rule batched_iter_ok [OF w b])
    have "sorted_wrt (\<lambda>x y. y \<le> x) (b_src_len x) \<and> batch_aligned d x" if "x \<in> set bl" for x
    proof -
      from that obtain i where i: "i < cnt" and x: "x = projr (batched_iter_body d (int b) (int i))"
        by (auto simp: bl_def)
      from batch_index_in_range [OF b i [unfolded cnt_def]]
      have "i * b < length (samples d)" .
      from batch_of_chunk(1,2) [OF w b this] show ?thesis by (simp add: x)
    qed
    with r show ?thesis by blast
  qed
  have 3: "\<forall>drawn. drawn \<noteq> [] \<and> (\<forall>x\<in>set drawn. 0 \<le> x \<and> x < int (length (samples d))) \<longrightarrow>
            (\<exists>b. get_random_batch d drawn = Inr b
               \<and> sorted_wrt (\<lambda>x y. y \<le> x) (b_src_len b) \<and> batch_aligned d b
               \<and> n_cols (b_src b) = length drawn
               \<and> (\<forall>k<length drawn. \<exists>x\<in>set drawn. batch_entry b k = sample_entry d (nat x)))"
    using get_random_batch_ok [OF w] by blast
  from 1 2 3 show ?thesis by blast
qed

theorem batches_sorted_and_aligned_witness:
  "\<exists>d b bl. load_data_from_stream (Dataset_new \<lparr>share_vocab = False, input_size = 0, output_size = 0\<rparr>)
         [''a b c'' @ [TAB] @ ''x y'' @ [NL], ''a b'' @ [TAB] @ ''x'' @ [NL],
          ''q c c d e'' @ [TAB] @ ''x'' @ [NL]] False = Inr d
     \<and> length (samples d) = 3
     \<and> get_random_batch d [1, 0, 2, 1] = Inr b
     \<and> sorted_wrt (\<lambda>x y. y \<le> x) (b_src_len b) \<and> batch_aligned d b \<and> n_cols (b_src b) = 4
     \<and> batched_iter d 2 = Inr bl
     \<and> list_all (\<lambda>b. sorted_wrt (\<lambda>x y. y \<le> x) (b_src_len b) \<and> batch_aligned d b) bl"
proof -
  define stream where "stream = [''a b c'' @ [TAB] @ ''x y'' @ [NL], ''a b'' @ [TAB] @ ''x'' @ [NL],
          ''q c c d e'' @ [TAB] @ ''x'' @ [NL]]"
  define self where "self = Dataset_new \<lparr>share_vocab = False, input_size = 0, output_size = 0\<rparr>"
  have "stream \<noteq> [] \<and> (\<forall>l\<in>set stream. count_list l TAB = 1)"
    by (simp add: stream_def TAB_def NL_def)
  with load_Inr_iff [of self stream False]
  obtain d where d: "load_data_from_stream self stream False = Inr d" by blast
  have n: "length (samples d) = 3"
    using load_wellformed(1,5) [OF d] load_Inr_fields(2) [OF d] by (simp add: stream_def)
  note t = batches_sorted_and_aligned [OF d]
  have dr: "[1, 0, 2, 1] \<noteq> ([]::int list)
      \<and> (\<forall>x\<in>set [1, 0, 2, 1]. 0 \<le> x \<and> x < int (length (samples d)))"
    by (simp add: n)
  from t dr obtain b where b: "get_random_batch d [1, 0, 2, 1] = Inr b"
    "sorted_wrt (\<lambda>x y. y \<le> x) (b_src_len b)" "batch_aligned d b"
    "n_cols (b_src b) = length [1, 0, 2, 1::int]"
    by blast
  have "(1::int) \<le> 2" by simp
  with t obtain bl where bl: "batched_iter d 2 = Inr bl"
    "\<forall>b\<in>set bl. sorted_wrt (\<lambda>x y. y \<le> x) (b_src_len b) \<and> batch_aligned d b"
    by blast
  from bl(2) have "list_all (\<lambda>b. sorted_wrt (\<lambda>x y. y \<le> x) (b_src_len b) \<and> batch_aligned d b) bl"
    by (simp add: list_all_iff)
  with d n b bl(1) show ?thesis unfolding stream_def self_def by auto
qed

end
